theory Spec2Isabelle
  imports
    Main
    "HOL-Library.Sublist"
    "HOL-Library.Char_ord"
    "HOL-Library.List_Lexorder"
    "HOL-Library.AList"
    "HOL-Library.Multiset"
begin

section \<open>Text primitives\<close>

text \<open>
  Python \<open>str\<close> values are modelled as \<^typ>\<open>string\<close>; the graph text is taken to be
  ASCII, so that a character is one \<^typ>\<open>char\<close>. \<open>str.startswith\<close> is
  \<^const>\<open>prefix\<close>, \<open>str.endswith\<close> is \<^const>\<open>suffix\<close> and the substring test
  \<open>p in s\<close> is \<^const>\<open>sublist\<close>, each with the pattern as first argument.
\<close>

definition dquote :: char where
  \<open>dquote = CHR 0x22\<close>

definition newline :: char where
  \<open>newline = CHR 0x0A\<close>

text \<open>\<open>str.isspace\<close> on one ASCII character: tab, line feed, vertical tab, form feed,
  carriage return, the four separators 0x1C..0x1F and the blank.\<close>

definition isspace :: "char \<Rightarrow> bool" where
  \<open>isspace c = (let n = (of_char c :: nat) in (9 \<le> n \<and> n \<le> 13) \<or> (28 \<le> n \<and> n \<le> 32))\<close>

definition lstrip :: "string \<Rightarrow> string" where
  \<open>lstrip s = dropWhile isspace s\<close>

definition rstrip :: "string \<Rightarrow> string" where
  \<open>rstrip s = rev (dropWhile isspace (rev s))\<close>

definition strip :: "string \<Rightarrow> string" where
  \<open>strip s = lstrip (rstrip s)\<close>

text \<open>\<open>str.lower\<close> on ASCII text.\<close>

definition lower_char :: "char \<Rightarrow> char" where
  \<open>lower_char c = (let n = (of_char c :: nat) in if 65 \<le> n \<and> n \<le> 90 then char_of (n + 32) else c)\<close>

definition lower :: "string \<Rightarrow> string" where
  \<open>lower s = map lower_char s\<close>

text \<open>\<open>dict.get(key, default)\<close> on a dictionary with string keys and values.\<close>

definition dict_get :: "(string \<rightharpoonup> string) \<Rightarrow> string \<Rightarrow> string \<Rightarrow> string" where
  \<open>dict_get d k dflt = (case d k of None \<Rightarrow> dflt | Some v \<Rightarrow> v)\<close>


section \<open>The UDF classifier (udf\_filter.py) and its copy in the verifier\<close>

text \<open>\<open>is_user_defined_method\<close> of \<open>udf_filter.py\<close>: a chain of early returns.\<close>

definition is_user_defined_method :: "(string \<rightharpoonup> string) \<Rightarrow> bool" where
  \<open>is_user_defined_method node_attrs =
    (let label = dict_get node_attrs ''label'' '''' in
     if label \<noteq> ''METHOD'' then False
     else
       let is_external = dict_get node_attrs ''IS_EXTERNAL'' ''false'' in
       if lower is_external = ''true'' then False
       else
         let name = dict_get node_attrs ''NAME'' '''';
             full_name = dict_get node_attrs ''FULL_NAME'' '''';
             filename = dict_get node_attrs ''FILENAME'' '''';
             ast_parent = dict_get node_attrs ''AST_PARENT_FULL_NAME'' ''''
         in
           if prefix ''<operator>'' name \<or> prefix ''<operator>'' full_name then False
           else if name = ''<clinit>'' \<or> name = ''<global>'' then False
           else if filename \<in> set [''<includes>'', ''<empty>'', ''''] then False
           else if sublist ''<includes>'' ast_parent then False
           else True)\<close>

text \<open>\<open>UDFFilterVerifier.is_user_defined_method\<close> of \<open>verify_udf_filtering.py\<close>.\<close>

definition verifier_is_user_defined_method :: "(string \<rightharpoonup> string) \<Rightarrow> bool" where
  \<open>verifier_is_user_defined_method node_attrs =
    (let label = dict_get node_attrs ''label'' '''' in
     if label \<noteq> ''METHOD'' then False
     else
       let is_external = dict_get node_attrs ''IS_EXTERNAL'' ''false'' in
       if lower is_external = ''true'' then False
       else
         let name = dict_get node_attrs ''NAME'' '''';
             full_name = dict_get node_attrs ''FULL_NAME'' '''';
             filename = dict_get node_attrs ''FILENAME'' '''';
             ast_parent = dict_get node_attrs ''AST_PARENT_FULL_NAME'' ''''
         in
           if prefix ''<operator>'' name \<or> prefix ''<operator>'' full_name then False
           else if name = ''<clinit>'' \<or> name = ''<global>'' then False
           else if filename \<in> set [''<includes>'', ''<empty>'', ''''] then False
           else if sublist ''<includes>'' ast_parent then False
           else True)\<close>

text \<open>
  The producer's node table \<open>nodes_info\<close> maps a node id to its attribute dictionary; a
  dictionary that is iterated is an association list in insertion order. The seed set
  \<open>udf_methods\<close> of \<open>filter_udf_subgraph\<close> collects the ids whose label is METHOD and
  that the classifier accepts.
\<close>

type_synonym attrs = "string \<rightharpoonup> string"

definition udf_methods :: "(string \<times> attrs) list \<Rightarrow> string set" where
  \<open>udf_methods nodes_info =
     set (map fst (filter (\<lambda>(node_id, attrs).
        attrs ''label'' = Some ''METHOD'' \<and> is_user_defined_method attrs) nodes_info))\<close>

text \<open>The verifier's node table keeps the attributes beside the raw definition.\<close>

record node_data =
  attributes :: attrs
  raw_definition :: string

definition original_udfs :: "(string \<times> node_data) list \<Rightarrow> string set" where
  \<open>original_udfs original_nodes =
     set (map fst (filter (\<lambda>(node_id, node_data).
        attributes node_data ''label'' = Some ''METHOD''
        \<and> verifier_is_user_defined_method (attributes node_data)) original_nodes))\<close>


section \<open>Lines and the regular expressions of the passes\<close>

text \<open>\<open>str.split('\n')\<close>: the text between line feeds; never the empty list.\<close>

fun split_nl :: "string \<Rightarrow> string list" where
  \<open>split_nl [] = [[]]\<close>
| \<open>split_nl (c # cs) =
     (if c = newline then [] # split_nl cs
      else (case split_nl cs of [] \<Rightarrow> [[c]] | l # ls \<Rightarrow> (c # l) # ls))\<close>

text \<open>\<open>'\n'.join(lines)\<close>.\<close>

fun join_nl :: "string list \<Rightarrow> string" where
  \<open>join_nl [] = []\<close>
| \<open>join_nl [l] = l\<close>
| \<open>join_nl (l # ls) = l @ newline # join_nl ls\<close>

text \<open>
  The fragment \<open>"([^"]+)"\<close> matched at the start of a text: the captured id and the text
  after the closing quote. The character class takes every character up to the next
  double quote, and giving characters back cannot help, so the match is unique.
\<close>

definition quoted_id :: "string \<Rightarrow> (string \<times> string) option" where
  \<open>quoted_id s =
     (case s of
        [] \<Rightarrow> None
      | c # cs \<Rightarrow>
          if c \<noteq> dquote then None
          else
            let ident = takeWhile (\<lambda>x. x \<noteq> dquote) cs;
                rest = dropWhile (\<lambda>x. x \<noteq> dquote) cs
            in if ident = [] \<or> rest = [] then None else Some (ident, tl rest))\<close>

text \<open>\<open>re.match(r'"([^"]+)"\s*\[', line)\<close>: the node id, when the line starts a node.\<close>

definition node_match :: "string \<Rightarrow> string option" where
  \<open>node_match line =
     (case quoted_id line of
        None \<Rightarrow> None
      | Some (node_id, r) \<Rightarrow>
          (case dropWhile isspace r of
             [] \<Rightarrow> None
           | c # _ \<Rightarrow> if c = CHR ''['' then Some node_id else None))\<close>

text \<open>
  The tail \<open>label="([^"]+)".*\];\<close> of the edge pattern, matched at the start of a text;
  the dot does not match a line feed.
\<close>

definition label_here :: "string \<Rightarrow> string option" where
  \<open>label_here s =
     (if prefix ''label='' s then
        (case quoted_id (drop 6 s) of
           None \<Rightarrow> None
         | Some (edge_type, r) \<Rightarrow>
             if sublist ''];'' (takeWhile (\<lambda>x. x \<noteq> newline) r) then Some edge_type else None)
      else None)\<close>

text \<open>
  \<open>.*label="([^"]+)".*\];\<close>: the greedy \<open>.*\<close> first takes as much as it can and gives
  characters back one at a time, so the label found is the rightmost one that matches.
\<close>

fun greedy_label :: "string \<Rightarrow> string option" where
  \<open>greedy_label [] = label_here []\<close>
| \<open>greedy_label (c # cs) =
     (if c = newline then label_here (c # cs)
      else (case greedy_label cs of Some t \<Rightarrow> Some t | None \<Rightarrow> label_here (c # cs)))\<close>

text \<open>
  \<open>re.match(r'"([^"]+)"\s*->\s*"([^"]+)"\s*\[.*label="([^"]+)".*\];', line)\<close>: the
  groups (source, target, edge type) of the match, if any.
\<close>

definition edge_match :: "string \<Rightarrow> (string \<times> string \<times> string) option" where
  \<open>edge_match line =
     (case quoted_id line of
        None \<Rightarrow> None
      | Some (src, r1) \<Rightarrow>
          let r2 = dropWhile isspace r1 in
          if \<not> prefix ''->'' r2 then None
          else
            (case quoted_id (dropWhile isspace (drop 2 r2)) of
               None \<Rightarrow> None
             | Some (tgt, r3) \<Rightarrow>
                 (case dropWhile isspace r3 of
                    [] \<Rightarrow> None
                  | c # r4 \<Rightarrow>
                      if c \<noteq> CHR ''['' then None
                      else
                        (case greedy_label r4 of
                           None \<Rightarrow> None
                         | Some edge_type \<Rightarrow> Some (src, tgt, edge_type)))))\<close>


text \<open>
  The edge pattern spelled out as a shape of the text: a quoted non-empty id, blanks, the
  arrow, blanks, a quoted non-empty id, blanks, an opening bracket, any text, a
  \<open>label\<close> attribute with a quoted non-empty value, any text, and \<open>];\<close>; nothing is
  asked of what follows. The two runs of any text stay within one line.
\<close>

definition edge_shape :: "string \<Rightarrow> string \<Rightarrow> string \<Rightarrow> string \<Rightarrow> bool" where
  \<open>edge_shape s a b t \<longleftrightarrow>
     (\<exists>ws1 ws2 ws3 pre post rest.
        s = [dquote] @ a @ [dquote] @ ws1 @ ''->'' @ ws2 @ [dquote] @ b @ [dquote] @ ws3
            @ ''['' @ pre @ ''label='' @ [dquote] @ t @ [dquote] @ post @ ''];'' @ rest
        \<and> a \<noteq> [] \<and> dquote \<notin> set a \<and> b \<noteq> [] \<and> dquote \<notin> set b \<and> t \<noteq> [] \<and> dquote \<notin> set t
        \<and> list_all isspace (ws1 @ ws2 @ ws3)
        \<and> newline \<notin> set pre \<and> newline \<notin> set post)\<close>

text \<open>
  The groups of the edge pattern, read off the text. \<open>label_shape r t\<close>: the text \<open>r\<close>
  starts with a \<open>label\<close> attribute whose quoted, non-empty value is \<open>t\<close>, and \<open>];\<close>
  follows later in the same line. \<open>last_label r t\<close>: \<open>t\<close> is the value of the rightmost
  such place of \<open>r\<close> that is reached without passing a line feed. \<open>edge_groups s a b t\<close>:
  \<open>s\<close> is a quoted non-empty id \<open>a\<close>, blanks, the arrow, blanks, a quoted non-empty id
  \<open>b\<close>, blanks, an opening bracket and a text whose last label is \<open>t\<close>.
\<close>

definition label_shape :: "string \<Rightarrow> string \<Rightarrow> bool" where
  \<open>label_shape r t \<longleftrightarrow>
     (\<exists>post rest. r = ''label='' @ [dquote] @ t @ [dquote] @ post @ ''];'' @ rest
        \<and> t \<noteq> [] \<and> dquote \<notin> set t \<and> newline \<notin> set post)\<close>

definition last_label :: "string \<Rightarrow> string \<Rightarrow> bool" where
  \<open>last_label r t \<longleftrightarrow>
     (\<exists>pre r'. r = pre @ r' \<and> newline \<notin> set pre \<and> label_shape r' t
        \<and> (\<forall>pre2 r2 t2. r = pre2 @ r2 \<and> newline \<notin> set pre2 \<and> label_shape r2 t2
              \<longrightarrow> length pre2 \<le> length pre))\<close>

definition edge_groups :: "string \<Rightarrow> string \<Rightarrow> string \<Rightarrow> string \<Rightarrow> bool" where
  \<open>edge_groups s a b t \<longleftrightarrow>
     (\<exists>ws1 ws2 ws3 r.
        s = [dquote] @ a @ [dquote] @ ws1 @ ''->'' @ ws2 @ [dquote] @ b @ [dquote] @ ws3
            @ ''['' @ r
        \<and> a \<noteq> [] \<and> dquote \<notin> set a \<and> b \<noteq> [] \<and> dquote \<notin> set b
        \<and> list_all isspace (ws1 @ ws2 @ ws3)
        \<and> last_label r t)\<close>

text \<open>
  The node pattern spelled out as a shape of the text: a quoted non-empty id, blanks and
  an opening bracket; nothing is asked of what follows.
\<close>

definition node_shape :: "string \<Rightarrow> string \<Rightarrow> bool" where
  \<open>node_shape s node_id \<longleftrightarrow>
     (\<exists>ws r. s = [dquote] @ node_id @ [dquote] @ ws @ ''['' @ r
        \<and> node_id \<noteq> [] \<and> dquote \<notin> set node_id \<and> list_all isspace ws)\<close>


section \<open>Edge passes\<close>

text \<open>
  An edge as the passes record it: the three groups of the match, and the line kept
  beside them (\<open>line\<close> in the UDF filter, \<open>raw_line\<close> in the verifiers).
\<close>

record edge_sig =
  source :: string
  target :: string
  etype :: string

record edge_info = edge_sig +
  line :: string

record parsed_edge = edge_sig +
  raw_line :: string

subsection \<open>simple\_subgraph\_extractor.py: extract\_edges\_simple\<close>

text \<open>The loop over the lines; the state is \<open>(edge_lines, connected_nodes)\<close>.\<close>

fun subgraph_edges_loop ::
  "string set \<Rightarrow> string list \<Rightarrow> string list \<times> string set \<Rightarrow> string list \<times> string set" where
  \<open>subgraph_edges_loop edge_types [] st = st\<close>
| \<open>subgraph_edges_loop edge_types (l # ls) (edge_lines, connected_nodes) =
     (let line = strip l in
      case edge_match line of
        None \<Rightarrow> subgraph_edges_loop edge_types ls (edge_lines, connected_nodes)
      | Some (src, tgt, edge_type) \<Rightarrow>
          if edge_type \<in> edge_types
          then subgraph_edges_loop edge_types ls
                 (edge_lines @ [line], insert tgt (insert src connected_nodes))
          else subgraph_edges_loop edge_types ls (edge_lines, connected_nodes))\<close>

definition subgraph_extract_edges_simple :: "string \<Rightarrow> string set \<Rightarrow> string list \<times> string set" where
  \<open>subgraph_extract_edges_simple dot_content edge_types =
     subgraph_edges_loop edge_types (split_nl dot_content) ([], {})\<close>

subsection \<open>verify\_subgraph\_extraction.py and verify\_udf\_filtering.py: parse\_edges\<close>

fun parse_edges_loop :: "string list \<Rightarrow> parsed_edge list \<Rightarrow> parsed_edge list" where
  \<open>parse_edges_loop [] edges = edges\<close>
| \<open>parse_edges_loop (l # ls) edges =
     (let line = strip l in
      case edge_match line of
        None \<Rightarrow> parse_edges_loop ls edges
      | Some (src, tgt, edge_type) \<Rightarrow>
          parse_edges_loop ls
            (edges @ [\<lparr>source = src, target = tgt, etype = edge_type, raw_line = line\<rparr>]))\<close>

text \<open>\<open>SubgraphVerifier.parse_edges\<close>.\<close>

definition subgraph_parse_edges :: "string \<Rightarrow> parsed_edge list" where
  \<open>subgraph_parse_edges dot_content = parse_edges_loop (split_nl dot_content) []\<close>

text \<open>\<open>UDFFilterVerifier.parse_edges\<close>; it strips the stripped line once more.\<close>

fun udf_parse_edges_loop :: "string list \<Rightarrow> parsed_edge list \<Rightarrow> parsed_edge list" where
  \<open>udf_parse_edges_loop [] edges = edges\<close>
| \<open>udf_parse_edges_loop (l # ls) edges =
     (let line = strip l in
      case edge_match line of
        None \<Rightarrow> udf_parse_edges_loop ls edges
      | Some (src, tgt, edge_type) \<Rightarrow>
          udf_parse_edges_loop ls
            (edges @ [\<lparr>source = src, target = tgt, etype = edge_type, raw_line = strip line\<rparr>]))\<close>

definition udf_parse_edges :: "string \<Rightarrow> parsed_edge list" where
  \<open>udf_parse_edges dot_content = udf_parse_edges_loop (split_nl dot_content) []\<close>

subsection \<open>udf\_filter.py: extract\_edges\_simple\<close>

text \<open>
  The four results of the pass. \<open>cfg_adjacency\<close> is a \<open>defaultdict(list)\<close>: a dictionary
  in insertion order, read with the default \<open>[]\<close>.
\<close>

record edge_tables =
  edge_lines :: "edge_info list"
  cfg_adjacency :: "(string \<times> string list) list"
  cfg_edges :: "edge_info list"
  call_edges :: "edge_info list"

definition adj_get :: "(string \<times> string list) list \<Rightarrow> string \<Rightarrow> string list" where
  \<open>adj_get adj k = (case map_of adj k of None \<Rightarrow> [] | Some ts \<Rightarrow> ts)\<close>

definition adj_append :: "string \<Rightarrow> string \<Rightarrow> (string \<times> string list) list \<Rightarrow> (string \<times> string list) list" where
  \<open>adj_append k v adj = AList.update k (adj_get adj k @ [v]) adj\<close>

fun udf_edges_loop :: "string list \<Rightarrow> edge_tables \<Rightarrow> edge_tables" where
  \<open>udf_edges_loop [] t = t\<close>
| \<open>udf_edges_loop (l # ls) t =
     (let line_stripped = strip l in
      case edge_match line_stripped of
        None \<Rightarrow> udf_edges_loop ls t
      | Some (src, tgt, edge_type) \<Rightarrow>
          let edge_info = \<lparr>source = src, target = tgt, etype = edge_type, line = l\<rparr>;
              t1 = (if edge_type = ''CFG''
                    then t\<lparr>cfg_adjacency := adj_append src tgt (cfg_adjacency t),
                           cfg_edges := cfg_edges t @ [edge_info]\<rparr>
                    else if edge_type = ''CALL''
                    then t\<lparr>call_edges := call_edges t @ [edge_info]\<rparr>
                    else t)
          in udf_edges_loop ls (t1\<lparr>edge_lines := edge_lines t1 @ [edge_info]\<rparr>))\<close>

definition udf_extract_edges_simple :: "string \<Rightarrow> edge_tables" where
  \<open>udf_extract_edges_simple dot_content =
     udf_edges_loop (split_nl dot_content)
       \<lparr>edge_lines = [], cfg_adjacency = [], cfg_edges = [], call_edges = []\<rparr>\<close>

subsection \<open>udf\_filter.py: bfs\_cfg\_reachable and the kept nodes\<close>

text \<open>
  The inner \<open>for neighbor in cfg_adjacency.get(current, [])\<close>: the state is the visited
  set and the queue.
\<close>

fun visit_neighbors :: "string list \<Rightarrow> string set \<times> string list \<Rightarrow> string set \<times> string list" where
  \<open>visit_neighbors [] (visited, queue) = (visited, queue)\<close>
| \<open>visit_neighbors (neighbor # ns) (visited, queue) =
     (if neighbor \<notin> visited
      then visit_neighbors ns (insert neighbor visited, queue @ [neighbor])
      else visit_neighbors ns (visited, queue))\<close>

lemma visit_neighbors_visited:
  \<open>fst (visit_neighbors ns (visited, queue)) = visited \<union> set ns\<close>
  by (induction ns arbitrary: visited queue) auto

lemma visit_neighbors_queue:
  \<open>set (snd (visit_neighbors ns (visited, queue))) = set queue \<union> (set ns - visited)\<close>
  by (induction ns arbitrary: visited queue) auto

lemma visit_neighbors_same:
  \<open>set ns \<subseteq> visited \<Longrightarrow> visit_neighbors ns (visited, queue) = (visited, queue)\<close>
  by (induction ns arbitrary: visited queue) auto

text \<open>Every node the dictionary lists as a target; the traversal never leaves this set.\<close>

definition adj_targets :: "(string \<times> string list) list \<Rightarrow> string set" where
  \<open>adj_targets adj = (\<Union>ts \<in> snd ` set adj. set ts)\<close>

lemma adj_get_targets: \<open>set (adj_get adj k) \<subseteq> adj_targets adj\<close>
proof (cases \<open>map_of adj k\<close>)
  case None
  then show ?thesis by (simp add: adj_get_def)
next
  case (Some ts)
  then have \<open>(k, ts) \<in> set adj\<close> by (rule map_of_SomeD)
  then have \<open>ts \<in> snd ` set adj\<close> by force
  with Some show ?thesis by (auto simp: adj_get_def adj_targets_def)
qed

lemma finite_adj_targets: \<open>finite (adj_targets adj)\<close>
  by (simp add: adj_targets_def)

text \<open>
  The \<open>while queue\<close> loop. It has no depth bound: it ends because a round either visits
  a new target of the dictionary or shortens the queue.
\<close>

function bfs_loop :: "(string \<times> string list) list \<Rightarrow> string set \<Rightarrow> string list \<Rightarrow> string set" where
  \<open>bfs_loop adj visited [] = visited\<close>
| \<open>bfs_loop adj visited (current # queue) =
     (case visit_neighbors (adj_get adj current) (visited, queue) of
        (visited', queue') \<Rightarrow> bfs_loop adj visited' queue')\<close>
  by pat_completeness auto
termination
proof (relation \<open>(\<lambda>(adj, visited, queue). card (adj_targets adj - visited)) <*mlex*>
                 measure (\<lambda>(adj, visited, queue). length queue)\<close>, goal_cases)
  case 1
  show ?case by (simp add: wf_mlex)
next
  case (2 adj visited current queue visited' queue')
  let ?ns = \<open>adj_get adj current\<close>
  from 2 have v: \<open>visited' = visited \<union> set ?ns\<close>
    using visit_neighbors_visited [of ?ns visited queue] by (metis fst_conv)
  show ?case
  proof (cases \<open>set ?ns \<subseteq> visited\<close>)
    case True
    then have \<open>visit_neighbors ?ns (visited, queue) = (visited, queue)\<close>
      by (rule visit_neighbors_same)
    with 2 have \<open>visited' = visited\<close> \<open>queue' = queue\<close> by simp_all
    then show ?thesis by (simp add: mlex_iff)
  next
    case False
    have \<open>adj_targets adj - visited' \<subset> adj_targets adj - visited\<close>
      using False adj_get_targets [of adj current] unfolding v by auto
    then have \<open>card (adj_targets adj - visited') < card (adj_targets adj - visited)\<close>
      by (intro psubset_card_mono) (simp_all add: finite_adj_targets)
    then show ?thesis by (simp add: mlex_iff)
  qed
qed

definition bfs_cfg_reachable :: "(string \<times> string list) list \<Rightarrow> string \<Rightarrow> string set" where
  \<open>bfs_cfg_reachable adj start_node = bfs_loop adj {start_node} [start_node]\<close>

text \<open>\<open>kept_nodes\<close>: the union of the sets reached from the UDF methods.\<close>

definition kept_nodes_of :: "(string \<times> string list) list \<Rightarrow> string set \<Rightarrow> string set" where
  \<open>kept_nodes_of adj udfs = (\<Union>udf_id \<in> udfs. bfs_cfg_reachable adj udf_id)\<close>

text \<open>The CFG edges as a relation on node ids, read off the adjacency dictionary.\<close>

definition cfg_step :: "(string \<times> string list) list \<Rightarrow> (string \<times> string) set" where
  \<open>cfg_step adj = {(x, y). y \<in> set (adj_get adj x)}\<close>

subsection \<open>udf\_filter.py: the edge filter of filter\_udf\_subgraph\<close>

text \<open>
  First the CFG edges with both ends kept, then the CALL edges from a kept node to a UDF
  method, each appended in the order of its own list.
\<close>

definition filter_kept_edges :: "edge_tables \<Rightarrow> string set \<Rightarrow> string set \<Rightarrow> edge_info list" where
  \<open>filter_kept_edges t kept_nodes udfs =
     filter (\<lambda>edge. source edge \<in> kept_nodes \<and> target edge \<in> kept_nodes) (cfg_edges t)
     @ filter (\<lambda>edge. source edge \<in> kept_nodes \<and> target edge \<in> udfs) (call_edges t)\<close>


text \<open>The record the UDF filter's pass makes of one line, if the line matches.\<close>

definition mk_edge_info :: "string \<Rightarrow> edge_info option" where
  \<open>mk_edge_info l =
     (case edge_match (strip l) of
        None \<Rightarrow> None
      | Some (src, tgt, edge_type) \<Rightarrow> Some \<lparr>source = src, target = tgt, etype = edge_type, line = l\<rparr>)\<close>


text \<open>The record the verifiers' pass makes of one line, if the line matches.\<close>

definition mk_parsed_edge :: "string \<Rightarrow> parsed_edge option" where
  \<open>mk_parsed_edge l =
     (case edge_match (strip l) of
        None \<Rightarrow> None
      | Some (src, tgt, edge_type) \<Rightarrow>
          Some \<lparr>source = src, target = tgt, etype = edge_type, raw_line = strip l\<rparr>)\<close>


section \<open>Node passes\<close>

text \<open>
  \<open>re.search(key + '="([^"]*)"', text)\<close>: the leftmost place where the key, an equals
  sign and a double quote are followed by a closing double quote; the group is the text
  between the two quotes. The class \<open>[^"]\<close> also matches a line feed.
\<close>

fun attr_search :: "string \<Rightarrow> string \<Rightarrow> string option" where
  \<open>attr_search key [] = None\<close>
| \<open>attr_search key (c # cs) =
     (if prefix (key @ ''='' @ [dquote]) (c # cs) then
        (let r = drop (length key + 2) (c # cs) in
         if dquote \<in> set r then Some (takeWhile (\<lambda>x. x \<noteq> dquote) r)
         else attr_search key cs)
      else attr_search key cs)\<close>

text \<open>
  The inner \<open>while j < len(lines)\<close> of every node pass, run on the lines after the
  first line of a declaration: it appends lines up to and including the first one that,
  stripped on the right, ends with \<open>"];\<close>. It returns the lines appended and the lines
  left for the outer loop.
\<close>

fun collect_block :: "string list \<Rightarrow> string list \<times> string list" where
  \<open>collect_block [] = ([], [])\<close>
| \<open>collect_block (next_line # ls) =
     (if suffix ([dquote] @ ''];'') (rstrip next_line) then ([next_line], ls)
      else (case collect_block ls of (blk, rest) \<Rightarrow> (next_line # blk, rest)))\<close>

lemma collect_block_length: \<open>length (snd (collect_block ls)) \<le> length ls\<close>
  by (induction ls) (auto split: prod.splits)

lemma collect_block_append: \<open>fst (collect_block ls) @ snd (collect_block ls) = ls\<close>
  by (induction ls) (auto split: prod.splits)

subsection \<open>udf\_filter.py: extract\_node\_minimal\_info\<close>

text \<open>The six searches that fill \<open>attrs\<close>; a key is set only when its search matches.\<close>

definition minimal_attrs :: "string \<Rightarrow> attrs" where
  \<open>minimal_attrs full_def =
     fold (\<lambda>key attrs. case attr_search key full_def of None \<Rightarrow> attrs | Some v \<Rightarrow> attrs(key \<mapsto> v))
       [''label'', ''IS_EXTERNAL'', ''NAME'', ''FULL_NAME'', ''FILENAME'', ''AST_PARENT_FULL_NAME'']
       Map.empty\<close>

function minimal_info_loop :: "string list \<Rightarrow> (string \<times> attrs) list \<Rightarrow> (string \<times> attrs) list" where
  \<open>minimal_info_loop [] nodes_info = nodes_info\<close>
| \<open>minimal_info_loop (l # ls) nodes_info =
     (let line = strip l in
      case node_match line of
        None \<Rightarrow> minimal_info_loop ls nodes_info
      | Some node_id \<Rightarrow>
          if suffix ([dquote] @ ''];'') line
          then minimal_info_loop ls (AList.update node_id (minimal_attrs line) nodes_info)
          else
            (case collect_block ls of
               (blk, rest) \<Rightarrow>
                 minimal_info_loop rest
                   (AList.update node_id (minimal_attrs (join_nl (line # blk))) nodes_info)))\<close>
  by pat_completeness auto
termination
proof (relation \<open>measure (\<lambda>(ls, nodes_info). length ls)\<close>, goal_cases)
  case (4 l ls nodes_info line node_id blk rest)
  then show ?case
    using collect_block_length [of ls] by (metis in_measure le_imp_less_Suc length_Cons old.prod.case snd_conv)
qed simp_all

definition extract_node_minimal_info :: "string \<Rightarrow> (string \<times> attrs) list" where
  \<open>extract_node_minimal_info dot_content = minimal_info_loop (split_nl dot_content) []\<close>

subsection \<open>udf\_filter.py: extract\_nodes\_simple\<close>

text \<open>
  \<open>node_lines\<close> is a dictionary from the node id to the raw text. A declaration whose
  id is not wanted is passed by one line; its later lines are scanned as line starts.
\<close>

function udf_nodes_loop ::
  "string set \<Rightarrow> string list \<Rightarrow> (string \<times> string) list \<Rightarrow> (string \<times> string) list" where
  \<open>udf_nodes_loop node_ids [] node_lines = node_lines\<close>
| \<open>udf_nodes_loop node_ids (l # ls) node_lines =
     (let line = strip l in
      case node_match line of
        None \<Rightarrow> udf_nodes_loop node_ids ls node_lines
      | Some node_id \<Rightarrow>
          if node_id \<in> node_ids then
            (if \<not> suffix ([dquote] @ ''];'') line then
               (case collect_block ls of
                  (blk, rest) \<Rightarrow>
                    udf_nodes_loop node_ids rest (AList.update node_id (join_nl (l # blk)) node_lines))
             else udf_nodes_loop node_ids ls (AList.update node_id l node_lines))
          else udf_nodes_loop node_ids ls node_lines)\<close>
  by pat_completeness auto
termination
proof (relation \<open>measure (\<lambda>(node_ids, ls, node_lines). length ls)\<close>, goal_cases)
  case (3 node_ids l ls node_lines line node_id blk rest)
  then show ?case
    using collect_block_length [of ls] by (metis in_measure le_imp_less_Suc length_Cons old.prod.case snd_conv)
qed simp_all

definition udf_extract_nodes_simple :: "string \<Rightarrow> string set \<Rightarrow> (string \<times> string) list" where
  \<open>udf_extract_nodes_simple dot_content node_ids = udf_nodes_loop node_ids (split_nl dot_content) []\<close>

subsection \<open>simple\_subgraph\_extractor.py: extract\_nodes\_simple\<close>

text \<open>Here \<open>node_lines\<close> is a list, appended to in the order of the input.\<close>

function subgraph_nodes_loop ::
  "string set \<Rightarrow> string list \<Rightarrow> string list \<times> string set \<Rightarrow> string list \<times> string set" where
  \<open>subgraph_nodes_loop node_ids [] st = st\<close>
| \<open>subgraph_nodes_loop node_ids (l # ls) (node_lines, found_nodes) =
     (let line = strip l in
      case node_match line of
        None \<Rightarrow> subgraph_nodes_loop node_ids ls (node_lines, found_nodes)
      | Some node_id \<Rightarrow>
          if node_id \<in> node_ids then
            (if \<not> suffix ([dquote] @ ''];'') line then
               (case collect_block ls of
                  (blk, rest) \<Rightarrow>
                    subgraph_nodes_loop node_ids rest
                      (node_lines @ [join_nl (l # blk)], insert node_id found_nodes))
             else subgraph_nodes_loop node_ids ls (node_lines @ [l], insert node_id found_nodes))
          else subgraph_nodes_loop node_ids ls (node_lines, found_nodes))\<close>
  by pat_completeness auto
termination
proof (relation \<open>measure (\<lambda>(node_ids, ls, st). length ls)\<close>, goal_cases)
  case (3 node_ids l ls node_lines found_nodes line node_id blk rest)
  then show ?case
    using collect_block_length [of ls] by (metis in_measure le_imp_less_Suc length_Cons old.prod.case snd_conv)
qed simp_all

definition subgraph_extract_nodes_simple :: "string \<Rightarrow> string set \<Rightarrow> string list \<times> string set" where
  \<open>subgraph_extract_nodes_simple dot_content node_ids =
     subgraph_nodes_loop node_ids (split_nl dot_content) ([], {})\<close>


section \<open>Filtering and writing\<close>

text \<open>\<open>str(n)\<close> for a length: the decimal digits.\<close>

definition digit_char :: "nat \<Rightarrow> char" where
  \<open>digit_char d = char_of (48 + d)\<close>

function str_nat :: "nat \<Rightarrow> string" where
  \<open>str_nat n = (if n < 10 then [digit_char n] else str_nat (n div 10) @ [digit_char (n mod 10)])\<close>
  by pat_completeness auto
termination
  by (relation \<open>measure (\<lambda>n. n)\<close>) auto

declare str_nat.simps [simp del]

text \<open>\<open>sep.join(xs)\<close> for a separator text.\<close>

fun join_sep :: "string \<Rightarrow> string list \<Rightarrow> string" where
  \<open>join_sep sep [] = []\<close>
| \<open>join_sep sep [x] = x\<close>
| \<open>join_sep sep (x # xs) = x @ sep @ join_sep sep xs\<close>

text \<open>
  The body of the loop that writes one node definition, the same in both writers: a
  text with a line feed is split, its first line written after two blanks and the other
  lines as they are; a text without one is written after two blanks. \<open>split\<close> never
  returns the empty list, so \<open>lines[0]\<close> exists.
\<close>

definition write_node_def :: "string \<Rightarrow> string" where
  \<open>write_node_def node_def =
     (if newline \<in> set node_def then
        (case split_nl node_def of
           [] \<Rightarrow> []
         | first # others \<Rightarrow>
             ''  '' @ first @ [newline] @ concat (map (\<lambda>line. line @ [newline]) others))
      else ''  '' @ node_def @ [newline])\<close>

subsection \<open>udf\_filter.py: filter\_udf\_subgraph and write\_dot\_file\<close>

definition filter_udf_subgraph :: "string \<Rightarrow> (string \<times> string) list \<times> edge_info list" where
  \<open>filter_udf_subgraph dot_content =
     (let nodes_info = extract_node_minimal_info dot_content;
          udfs = udf_methods nodes_info;
          t = udf_extract_edges_simple dot_content;
          kept_nodes = kept_nodes_of (cfg_adjacency t) udfs;
          node_definitions = udf_extract_nodes_simple dot_content kept_nodes;
          kept_edges = filter_kept_edges t kept_nodes udfs
      in (node_definitions, kept_edges))\<close>

text \<open>
  The text \<open>write_dot_file\<close> writes. The node ids are the keys of the dictionary, so
  the lookup in the loop finds each of them.
\<close>

definition write_dot_file :: "(string \<times> string) list \<Rightarrow> edge_info list \<Rightarrow> string \<Rightarrow> string" where
  \<open>write_dot_file node_definitions edges original_name =
     ''digraph udf_'' @ original_name @ '' {'' @ [newline]
     @ ''  // UDF-filtered subgraph'' @ [newline]
     @ ''  // Only user-defined functions and their bodies'' @ [newline]
     @ ''  // Nodes: '' @ str_nat (length node_definitions)
     @ '', Edges: '' @ str_nat (length edges) @ [newline, newline]
     @ ''  // Node definitions'' @ [newline]
     @ concat (map (\<lambda>node_id.
          case map_of node_definitions node_id of
            None \<Rightarrow> []
          | Some node_def \<Rightarrow> write_node_def node_def)
        (sort (map fst node_definitions)))
     @ [newline] @ ''  // Edge definitions'' @ [newline]
     @ concat (map (\<lambda>edge. ''  '' @ line edge @ [newline]) edges)
     @ ''}'' @ [newline]\<close>

subsection \<open>simple\_subgraph\_extractor.py: create\_simple\_subgraph\<close>

text \<open>
  The text written to the output file; \<open>edge_types\<close> is given as the list in which the
  set of wanted types is iterated.
\<close>

definition create_simple_subgraph :: "string \<Rightarrow> string list \<Rightarrow> string" where
  \<open>create_simple_subgraph dot_content edge_types =
     (case subgraph_extract_edges_simple dot_content (set edge_types) of
        (kept_lines, connected_nodes) \<Rightarrow>
          (case subgraph_extract_nodes_simple dot_content connected_nodes of
             (node_lines, found_nodes) \<Rightarrow>
               ''digraph subgraph_'' @ join_sep ''_'' edge_types @ '' {'' @ [newline]
               @ ''  // Direct extraction from original DOT file'' @ [newline]
               @ ''  // Edge types: '' @ join_sep '', '' edge_types @ [newline]
               @ ''  // Nodes: '' @ str_nat (card found_nodes)
               @ '', Edges: '' @ str_nat (length kept_lines) @ [newline, newline]
               @ ''  // Node definitions'' @ [newline]
               @ concat (map write_node_def node_lines)
               @ [newline] @ ''  // Edge definitions'' @ [newline]
               @ concat (map (\<lambda>line. ''  '' @ line @ [newline]) kept_lines)
               @ ''}'' @ [newline]))\<close>


section \<open>The UDF-filter verifier (verify\_udf\_filtering.py)\<close>

subsection \<open>parse\_nodes\<close>

text \<open>\<open>extract_node_attributes\<close>: the six searches, in the order of the pattern table.\<close>

definition extract_node_attributes :: "string \<Rightarrow> attrs" where
  \<open>extract_node_attributes node_definition =
     fold (\<lambda>key acc. case attr_search key node_definition of None \<Rightarrow> acc | Some v \<Rightarrow> acc(key \<mapsto> v))
       [''label'', ''IS_EXTERNAL'', ''NAME'', ''FULL_NAME'', ''FILENAME'', ''AST_PARENT_FULL_NAME'']
       Map.empty\<close>

definition parsed_node :: "string \<Rightarrow> node_data" where
  \<open>parsed_node full_definition =
     \<lparr>attributes = extract_node_attributes full_definition,
      raw_definition = strip full_definition\<rparr>\<close>

function verifier_nodes_loop ::
  "string list \<Rightarrow> (string \<times> node_data) list \<Rightarrow> (string \<times> node_data) list" where
  \<open>verifier_nodes_loop [] nodes = nodes\<close>
| \<open>verifier_nodes_loop (l # ls) nodes =
     (let line = strip l in
      case node_match line of
        None \<Rightarrow> verifier_nodes_loop ls nodes
      | Some node_id \<Rightarrow>
          if \<not> suffix ([dquote] @ ''];'') line then
            (case collect_block ls of
               (blk, rest) \<Rightarrow>
                 verifier_nodes_loop rest
                   (AList.update node_id (parsed_node (join_nl (l # blk))) nodes))
          else verifier_nodes_loop ls (AList.update node_id (parsed_node (join_nl [l])) nodes))\<close>
  by pat_completeness auto
termination
proof (relation \<open>measure (\<lambda>(ls, nodes). length ls)\<close>, goal_cases)
  case (3 l ls nodes line node_id blk rest)
  then show ?case
    using collect_block_length [of ls] by (metis in_measure le_imp_less_Suc length_Cons old.prod.case snd_conv)
qed simp_all

definition verifier_parse_nodes :: "string \<Rightarrow> (string \<times> node_data) list" where
  \<open>verifier_parse_nodes dot_content = verifier_nodes_loop (split_nl dot_content) []\<close>

subsection \<open>The four checks\<close>

text \<open>The result of one check, stored under its category name.\<close>

record check_result =
  passed :: bool
  issues :: "string list"

text \<open>
  \<open>verify_udf_identification\<close>. The first message prints a Python set, whose text depends
  on the iteration order of the set; the rendering is a parameter.
\<close>

definition verify_udf_identification ::
  "(string set \<Rightarrow> string) \<Rightarrow> (string \<times> node_data) list \<Rightarrow> (string \<times> node_data) list \<Rightarrow> check_result" where
  \<open>verify_udf_identification repr_set original_nodes filtered_nodes =
     (let udfs = original_udfs original_nodes;
          filtered_method_nodes =
            set (map fst (filter (\<lambda>(node_id, node_data).
              attributes node_data ''label'' = Some ''METHOD'') filtered_nodes));
          filtered_udf_nodes =
            set (map fst (filter (\<lambda>(node_id, node_data).
              attributes node_data ''label'' = Some ''METHOD''
              \<and> verifier_is_user_defined_method (attributes node_data)) filtered_nodes));
          r0 = \<lparr>passed = True, issues = []\<rparr>;
          missing_udfs = udfs - filtered_udf_nodes;
          r1 = (if missing_udfs \<noteq> {}
                then \<lparr>passed = False,
                      issues = issues r0 @ [''Missing UDF methods: '' @ repr_set missing_udfs]\<rparr>
                else r0);
          external_methods_in_filtered = filtered_method_nodes - udfs
      in if external_methods_in_filtered \<noteq> {}
         then \<lparr>passed = False,
               issues = issues r1
                 @ [''External methods present: '' @ str_nat (card external_methods_in_filtered)]\<rparr>
         else r1)\<close>

text \<open>
  \<open>verify_cfg_reachability\<close>. The adjacency is built from the CFG edges of the original;
  the nested \<open>bfs_cfg_reachable\<close> has the text of the one in \<open>udf_filter.py\<close>.
\<close>

definition verifier_cfg_adjacency :: "parsed_edge list \<Rightarrow> (string \<times> string list) list" where
  \<open>verifier_cfg_adjacency original_edges =
     fold (\<lambda>edge adj. adj_append (source edge) (target edge) adj)
       (filter (\<lambda>e. etype e = ''CFG'') original_edges) []\<close>

definition verify_cfg_reachability ::
  "parsed_edge list \<Rightarrow> (string \<times> node_data) list \<Rightarrow> (string \<times> node_data) list \<Rightarrow> check_result" where
  \<open>verify_cfg_reachability original_edges original_nodes filtered_nodes =
     (let expected_nodes =
            kept_nodes_of (verifier_cfg_adjacency original_edges) (original_udfs original_nodes);
          actual_nodes = set (map fst filtered_nodes);
          r0 = \<lparr>passed = True, issues = []\<rparr>;
          missing_nodes = expected_nodes - actual_nodes;
          r1 = (if missing_nodes \<noteq> {}
                then \<lparr>passed = False,
                      issues = issues r0
                        @ [''Missing CFG-reachable nodes: '' @ str_nat (card missing_nodes)]\<rparr>
                else r0);
          extra_nodes = actual_nodes - expected_nodes
      in if extra_nodes \<noteq> {}
         then \<lparr>passed = False,
               issues = issues r1
                 @ [''Extra non-CFG-reachable nodes: '' @ str_nat (card extra_nodes)]\<rparr>
         else r1)\<close>

text \<open>\<open>verify_edge_filtering\<close>.\<close>

definition verify_edge_filtering ::
  "(string \<times> node_data) list \<Rightarrow> (string \<times> node_data) list \<Rightarrow> parsed_edge list \<Rightarrow> check_result" where
  \<open>verify_edge_filtering original_nodes filtered_nodes filtered_edges =
     (let filtered_node_ids = set (map fst filtered_nodes);
          udfs = original_udfs original_nodes;
          invalid_cfg_edges =
            filter (\<lambda>edge. source edge \<notin> filtered_node_ids \<or> target edge \<notin> filtered_node_ids)
              (filter (\<lambda>e. etype e = ''CFG'') filtered_edges);
          r0 = \<lparr>passed = True, issues = []\<rparr>;
          r1 = (if invalid_cfg_edges \<noteq> []
                then \<lparr>passed = False,
                      issues = issues r0
                        @ [''CFG edges with missing endpoints: '' @ str_nat (length invalid_cfg_edges)]\<rparr>
                else r0);
          invalid_call_edges =
            filter (\<lambda>edge. \<not> (source edge \<in> filtered_node_ids \<and> target edge \<in> udfs))
              (filter (\<lambda>e. etype e = ''CALL'') filtered_edges)
      in if invalid_call_edges \<noteq> []
         then \<lparr>passed = False,
               issues = issues r1
                 @ [''CALL edges violating UDF rules: '' @ str_nat (length invalid_call_edges)]\<rparr>
         else r1)\<close>

text \<open>
  \<open>verify_node_integrity\<close>: the loop over the filtered nodes, with the state
  \<open>(passed, issues, corrupted_nodes)\<close>, and the message added after it. The ids of the
  corrupted nodes are printed to the console only; the issue holds their number.
\<close>

fun integrity_loop ::
  "(string \<times> node_data) list \<Rightarrow> (string \<times> node_data) list
     \<Rightarrow> bool \<times> string list \<times> string list \<Rightarrow> bool \<times> string list \<times> string list" where
  \<open>integrity_loop original_nodes [] st = st\<close>
| \<open>integrity_loop original_nodes ((node_id, filtered_data) # rest) (ok, msgs, corrupted_nodes) =
     (case map_of original_nodes node_id of
        None \<Rightarrow>
          integrity_loop original_nodes rest
            (False, msgs @ [''Node '' @ node_id @ '' not found in original''], corrupted_nodes)
      | Some original_data \<Rightarrow>
          let original_raw = strip (raw_definition original_data);
              filtered_raw = strip (raw_definition filtered_data)
          in if original_raw \<noteq> filtered_raw
             then integrity_loop original_nodes rest (False, msgs, corrupted_nodes @ [node_id])
             else integrity_loop original_nodes rest (ok, msgs, corrupted_nodes))\<close>

definition verify_node_integrity ::
  "(string \<times> node_data) list \<Rightarrow> (string \<times> node_data) list \<Rightarrow> check_result" where
  \<open>verify_node_integrity original_nodes filtered_nodes =
     (case integrity_loop original_nodes filtered_nodes (True, [], []) of
        (ok, msgs, corrupted_nodes) \<Rightarrow>
          if corrupted_nodes \<noteq> []
          then \<lparr>passed = ok,
                issues = msgs
                  @ [''Corrupted node definitions: '' @ str_nat (length corrupted_nodes)]\<rparr>
          else \<lparr>passed = ok, issues = msgs\<rparr>)\<close>

subsection \<open>run\_verification\<close>

text \<open>The four categories of \<open>verification_results\<close>, computed from the two texts.\<close>

record verification_results =
  udf_identification :: check_result
  cfg_reachability :: check_result
  edge_filtering :: check_result
  node_integrity :: check_result

definition run_verification :: "(string set \<Rightarrow> string) \<Rightarrow> string \<Rightarrow> string \<Rightarrow> verification_results" where
  \<open>run_verification repr_set original_content filtered_content =
     (let original_edges = udf_parse_edges original_content;
          original_nodes = verifier_parse_nodes original_content;
          filtered_edges = udf_parse_edges filtered_content;
          filtered_nodes = verifier_parse_nodes filtered_content
      in \<lparr>udf_identification = verify_udf_identification repr_set original_nodes filtered_nodes,
          cfg_reachability = verify_cfg_reachability original_edges original_nodes filtered_nodes,
          edge_filtering = verify_edge_filtering original_nodes filtered_nodes filtered_edges,
          node_integrity = verify_node_integrity original_nodes filtered_nodes\<rparr>)\<close>


subsection \<open>Notions used to state what the checks report\<close>

text \<open>A filtered node whose id the original does not declare.\<close>

definition node_missing :: "(string \<times> node_data) list \<Rightarrow> string \<times> node_data \<Rightarrow> bool" where
  \<open>node_missing original_nodes = (\<lambda>(node_id, filtered_data). map_of original_nodes node_id = None)\<close>

text \<open>A filtered node whose stripped raw text differs from the original's.\<close>

definition node_corrupt :: "(string \<times> node_data) list \<Rightarrow> string \<times> node_data \<Rightarrow> bool" where
  \<open>node_corrupt original_nodes =
     (\<lambda>(node_id, filtered_data).
        case map_of original_nodes node_id of
          None \<Rightarrow> False
        | Some original_data \<Rightarrow>
            strip (raw_definition original_data) \<noteq> strip (raw_definition filtered_data))\<close>

text \<open>
  The filtered node table after the raw text of node \<open>n\<close> has been replaced by \<open>r\<close>: the
  ids, the attributes and the other nodes are unchanged.
\<close>

definition mutate_raw :: "string \<Rightarrow> string \<Rightarrow> (string \<times> node_data) list \<Rightarrow> (string \<times> node_data) list" where
  \<open>mutate_raw n r filtered_nodes =
     map (\<lambda>(node_id, node_data).
            if node_id = n then (node_id, node_data\<lparr>raw_definition := r\<rparr>)
            else (node_id, node_data)) filtered_nodes\<close>

text \<open>
  One of the texts Python may print for a set of plain strings: the quoted elements, here
  in ascending order, between braces.
\<close>

definition repr_set_sorted :: "string set \<Rightarrow> string" where
  \<open>repr_set_sorted S =
     ''{'' @ join_sep '', '' (map (\<lambda>x. [CHR 0x27] @ x @ [CHR 0x27]) (sorted_list_of_set S)) @ ''}''\<close>


section \<open>The node scanner of schema\_report.py\<close>

definition backslash :: char where
  \<open>backslash = CHR 0x5C\<close>

text \<open>
  The \<open>while i < n\<close> loop of \<open>_scan_until_node_end\<close>, run on the rest of the line:
  the state is \<open>in_string\<close>, \<open>escape\<close> and \<open>buf\<close>; the result is the buffer,
  \<open>done\<close> and \<open>in_string\<close>. At a closing bracket outside a string the blanks that
  follow are appended while looking ahead; if a semicolon follows, it is appended and
  removed again, trailing blanks are removed and the loop ends; otherwise the loop goes
  on with the next character.
\<close>

fun scan_loop :: "string \<Rightarrow> bool \<Rightarrow> bool \<Rightarrow> string \<Rightarrow> string \<times> bool \<times> bool" where
  \<open>scan_loop [] in_string escape buf = (buf, False, in_string)\<close>
| \<open>scan_loop (c # cs) in_string escape buf =
     (let buf1 = buf @ [c] in
      if in_string then
        (if \<not> escape \<and> c = backslash then scan_loop cs in_string True buf1
         else if escape then scan_loop cs in_string False buf1
         else if c = dquote then scan_loop cs False escape buf1
         else scan_loop cs in_string escape buf1)
      else
        (if c = dquote then scan_loop cs True escape buf1
         else if c = CHR '']'' then
           (let buf2 = buf1 @ takeWhile isspace cs in
            case dropWhile isspace cs of
              [] \<Rightarrow> scan_loop cs in_string escape buf2
            | k # _ \<Rightarrow>
                if k = CHR '';'' then (rstrip (butlast (buf2 @ '';'')), True, in_string)
                else scan_loop cs in_string escape buf2)
         else scan_loop cs in_string escape buf1))\<close>

text \<open>\<open>_scan_until_node_end\<close>: \<open>escape\<close> starts as false on every line; a non-empty
  buffer is appended to \<open>accum\<close>.\<close>

definition scan_until_node_end :: "string list \<Rightarrow> string \<Rightarrow> bool \<Rightarrow> string list \<times> bool \<times> bool" where
  \<open>scan_until_node_end accum ln in_string =
     (case scan_loop ln in_string False [] of
        (buf, done, in_string') \<Rightarrow> (if buf \<noteq> [] then accum @ [buf] else accum, done, in_string'))\<close>

text \<open>\<open>_node_start\<close>: the node id and the text after the opening bracket, for a line that
  starts with a double quote and holds no arrow.\<close>

definition node_start :: "string \<Rightarrow> (string \<times> string) option" where
  \<open>node_start ln =
     (let s = strip ln in
      if \<not> prefix [dquote] s then None
      else if sublist ''->'' s then None
      else
        (case dropWhile (\<lambda>x. x \<noteq> dquote) (tl s) of
           [] \<Rightarrow> None
         | q # after \<Rightarrow>
             (case dropWhile isspace after of
                [] \<Rightarrow> None
              | b # remainder \<Rightarrow>
                  if b = CHR ''['' then Some (takeWhile (\<lambda>x. x \<noteq> dquote) (tl s), remainder)
                  else None)))\<close>

text \<open>
  The loop of \<open>parse_dot_file\<close> over the lines of the file, with the state
  \<open>(in_node, in_string, attr_accum)\<close>; the result lists the attribute text of every
  node that was closed, which is what the attribute parser is then given.
\<close>

fun scan_file :: "string list \<Rightarrow> bool \<times> bool \<times> string list \<Rightarrow> string list \<Rightarrow> string list" where
  \<open>scan_file [] st out = out\<close>
| \<open>scan_file (raw # raws) (in_node, in_string, attr_accum) out =
     (if \<not> in_node then
        (case node_start raw of
           None \<Rightarrow> scan_file raws (in_node, in_string, attr_accum) out
         | Some (node_id, remainder) \<Rightarrow>
             (case scan_until_node_end [] remainder False of
                (accum, done, in_string') \<Rightarrow>
                  if done then scan_file raws (False, in_string', []) (out @ [concat accum])
                  else scan_file raws (True, in_string', accum) out))
      else
        (case scan_until_node_end attr_accum raw in_string of
           (accum, done, in_string') \<Rightarrow>
             if done then scan_file raws (False, in_string', []) (out @ [concat accum])
             else scan_file raws (True, in_string', accum) out))\<close>

text \<open>
  The lines a text file yields when iterated. The file is opened in text mode, so a
  carriage return followed by a line feed, and a carriage return alone, end a line and
  are handed on as one line feed; each line keeps its line feed.
\<close>

definition carriage_return :: char where
  \<open>carriage_return = CHR 0x0D\<close>

fun universal_newlines :: "string \<Rightarrow> string" where
  \<open>universal_newlines [] = []\<close>
| \<open>universal_newlines [c] = [if c = carriage_return then newline else c]\<close>
| \<open>universal_newlines (c # d # cs) =
     (if c = carriage_return then
        (if d = newline then newline # universal_newlines cs
         else newline # universal_newlines (d # cs))
      else c # universal_newlines (d # cs))\<close>

fun keep_ends :: "string \<Rightarrow> string list" where
  \<open>keep_ends [] = []\<close>
| \<open>keep_ends (c # cs) =
     (if c = newline then [c] # keep_ends cs
      else (case keep_ends cs of [] \<Rightarrow> [[c]] | l # ls \<Rightarrow> (c # l) # ls))\<close>

definition file_lines :: "string \<Rightarrow> string list" where
  \<open>file_lines text = keep_ends (universal_newlines text)\<close>

text \<open>
  The quote tracking of the loop, read on its own: how one character changes
  \<open>(in_string, escape)\<close>, and the state after a text.
\<close>

fun quote_step :: "bool \<times> bool \<Rightarrow> char \<Rightarrow> bool \<times> bool" where
  \<open>quote_step (in_string, escape) c =
     (if in_string then
        (if \<not> escape \<and> c = backslash then (True, True)
         else if escape then (True, False)
         else if c = dquote then (False, escape)
         else (True, escape))
      else (if c = dquote then (True, escape) else (False, escape)))\<close>

definition quote_state :: "bool \<times> bool \<Rightarrow> string \<Rightarrow> bool \<times> bool" where
  \<open>quote_state st text = foldl quote_step st text\<close>

text \<open>
  A line holds the end of a node block: a closing bracket that is outside any quoted
  string, for the quote state carried into the line, followed by blanks and a semicolon.
\<close>

definition block_end_at :: "bool \<Rightarrow> string \<Rightarrow> bool" where
  \<open>block_end_at in_string ln \<longleftrightarrow>
     (\<exists>pre sp rest. ln = pre @ '']'' @ sp @ '';'' @ rest \<and> list_all isspace sp
        \<and> \<not> fst (quote_state (in_string, False) pre))\<close>


section \<open>Node blocks\<close>

text \<open>
  A line starts a wanted declaration when its stripped text has the shape of the node
  pattern with an id in the given set; a text ends a block for the node passes when it
  ends with a double quote, a closing bracket and a semicolon.
\<close>

definition wanted_start :: "string set \<Rightarrow> string \<Rightarrow> bool" where
  \<open>wanted_start node_ids l \<longleftrightarrow> (\<exists>node_id \<in> node_ids. node_shape (strip l) node_id)\<close>

definition ends_block :: "string \<Rightarrow> bool" where
  \<open>ends_block s \<longleftrightarrow> suffix ([dquote] @ ''];'') s\<close>

text \<open>
  \<open>node_blocks node_ids ls bs\<close>: the blocks \<open>bs\<close> cut the lines \<open>ls\<close> as follows. Lines
  that start no wanted declaration lie between the blocks. A block starts at a line that
  starts a wanted declaration. If the stripped first line ends a block, the block is that
  line alone. Otherwise the block runs on through the first later line that, stripped on
  the right, ends a block, whatever the lines in between are; if no such line follows, it
  runs to the last line.
\<close>

inductive node_blocks :: "string set \<Rightarrow> string list \<Rightarrow> string list list \<Rightarrow> bool"
  for node_ids :: "string set" where
  no_more: \<open>\<forall>l \<in> set gap. \<not> wanted_start node_ids l \<Longrightarrow> node_blocks node_ids gap []\<close>
| one_line:
    \<open>\<forall>l \<in> set gap. \<not> wanted_start node_ids l \<Longrightarrow> wanted_start node_ids first
     \<Longrightarrow> ends_block (strip first)
     \<Longrightarrow> node_blocks node_ids post bs
     \<Longrightarrow> node_blocks node_ids (gap @ first # post) ([first] # bs)\<close>
| closed:
    \<open>\<forall>l \<in> set gap. \<not> wanted_start node_ids l \<Longrightarrow> wanted_start node_ids first
     \<Longrightarrow> \<not> ends_block (strip first)
     \<Longrightarrow> \<forall>l \<in> set body. \<not> ends_block (rstrip l) \<Longrightarrow> ends_block (rstrip final)
     \<Longrightarrow> node_blocks node_ids post bs
     \<Longrightarrow> node_blocks node_ids (gap @ first # body @ final # post) ((first # body @ [final]) # bs)\<close>
| unclosed:
    \<open>\<forall>l \<in> set gap. \<not> wanted_start node_ids l \<Longrightarrow> wanted_start node_ids first
     \<Longrightarrow> \<not> ends_block (strip first)
     \<Longrightarrow> \<forall>l \<in> set body. \<not> ends_block (rstrip l)
     \<Longrightarrow> node_blocks node_ids (gap @ first # body) [first # body]\<close>

text \<open>The id with which a block starts.\<close>

definition block_id :: "string list \<Rightarrow> string option" where
  \<open>block_id b = (case b of [] \<Rightarrow> None | first # _ \<Rightarrow> node_match (strip first))\<close>


section \<open>Properties\<close>

subsection \<open>Lines\<close>

lemma split_nl_not_Nil: \<open>split_nl s \<noteq> []\<close>
  by (induction s) (auto split: list.splits)

lemma split_nl_no_newline: \<open>l \<in> set (split_nl s) \<Longrightarrow> newline \<notin> set l\<close>
  by (induction s arbitrary: l) (auto split: if_splits list.splits)

lemma join_nl_Cons: \<open>ls \<noteq> [] \<Longrightarrow> join_nl (l # ls) = l @ newline # join_nl ls\<close>
  by (cases ls) simp_all

lemma join_split_nl: \<open>join_nl (split_nl s) = s\<close>
proof (induction s)
  case Nil
  show ?case by simp
next
  case (Cons c s)
  show ?case
  proof (cases \<open>c = newline\<close>)
    case True
    then show ?thesis using Cons by (simp add: join_nl_Cons split_nl_not_Nil)
  next
    case False
    obtain l ls where sp: \<open>split_nl s = l # ls\<close>
      using split_nl_not_Nil [of s] by (cases \<open>split_nl s\<close>) auto
    with Cons have \<open>join_nl (l # ls) = s\<close> by simp
    then have \<open>join_nl ((c # l) # ls) = c # s\<close> by (cases ls) auto
    with False sp show ?thesis by simp
  qed
qed

lemma split_nl_no_newline_id: \<open>newline \<notin> set l \<Longrightarrow> split_nl l = [l]\<close>
  by (induction l) auto

lemma split_nl_append_line:
  \<open>newline \<notin> set l \<Longrightarrow> split_nl (l @ newline # s) = l # split_nl s\<close>
  by (induction l) auto

lemma split_join_nl:
  \<open>ls \<noteq> [] \<Longrightarrow> \<forall>l \<in> set ls. newline \<notin> set l \<Longrightarrow> split_nl (join_nl ls) = ls\<close>
proof (induction ls rule: join_nl.induct)
  case 1
  then show ?case by simp
next
  case (2 l)
  then show ?case by (simp add: split_nl_no_newline_id)
next
  case (3 l v va)
  then show ?case by (simp add: split_nl_append_line)
qed

lemma concat_lines_join: \<open>ls \<noteq> [] \<Longrightarrow> concat (map (\<lambda>l. l @ [newline]) ls) = join_nl ls @ [newline]\<close>
  by (induction ls rule: join_nl.induct) simp_all

lemma write_node_def_eq: \<open>write_node_def node_def = ''  '' @ node_def @ [newline]\<close>
proof (cases \<open>newline \<in> set node_def\<close>)
  case False
  then show ?thesis by (simp add: write_node_def_def)
next
  case True
  obtain first others where sp: \<open>split_nl node_def = first # others\<close>
    using split_nl_not_Nil [of node_def] by (cases \<open>split_nl node_def\<close>) auto
  have \<open>concat (map (\<lambda>l. l @ [newline]) (first # others)) = join_nl (first # others) @ [newline]\<close>
    by (rule concat_lines_join) simp
  then have \<open>first @ [newline] @ concat (map (\<lambda>l. l @ [newline]) others) = node_def @ [newline]\<close>
    using join_split_nl [of node_def] sp by simp
  with True sp show ?thesis by (simp add: write_node_def_def)
qed


subsection \<open>The edge pass of the UDF filter\<close>

lemma map_filter_Cons_None: \<open>f x = None \<Longrightarrow> List.map_filter f (x # xs) = List.map_filter f xs\<close>
  by (simp add: List.map_filter_def)

lemma map_filter_Cons_Some: \<open>f x = Some y \<Longrightarrow> List.map_filter f (x # xs) = y # List.map_filter f xs\<close>
  by (simp add: List.map_filter_def)

lemma udf_edges_loop_edge_lines:
  \<open>edge_lines (udf_edges_loop ls t) = edge_lines t @ List.map_filter mk_edge_info ls\<close>
proof (induction ls arbitrary: t)
  case Nil
  show ?case by (simp add: List.map_filter_def)
next
  case (Cons l ls)
  show ?case
  proof (cases \<open>edge_match (strip l)\<close>)
    case None
    then show ?thesis using Cons by (simp add: mk_edge_info_def map_filter_Cons_None)
  next
    case (Some m)
    obtain src tgt ty where m: \<open>m = (src, tgt, ty)\<close> by (cases m)
    have \<open>mk_edge_info l = Some \<lparr>source = src, target = tgt, etype = ty, line = l\<rparr>\<close>
      using Some m by (simp add: mk_edge_info_def)
    then show ?thesis using Some m Cons by (simp add: map_filter_Cons_Some Let_def)
  qed
qed

lemma udf_edges_loop_cfg_edges:
  \<open>cfg_edges (udf_edges_loop ls t) =
     cfg_edges t @ filter (\<lambda>e. etype e = ''CFG'') (List.map_filter mk_edge_info ls)\<close>
proof (induction ls arbitrary: t)
  case Nil
  show ?case by (simp add: List.map_filter_def)
next
  case (Cons l ls)
  show ?case
  proof (cases \<open>edge_match (strip l)\<close>)
    case None
    then show ?thesis using Cons by (simp add: mk_edge_info_def map_filter_Cons_None)
  next
    case (Some m)
    obtain src tgt ty where m: \<open>m = (src, tgt, ty)\<close> by (cases m)
    have \<open>mk_edge_info l = Some \<lparr>source = src, target = tgt, etype = ty, line = l\<rparr>\<close>
      using Some m by (simp add: mk_edge_info_def)
    then show ?thesis using Some m Cons by (simp add: map_filter_Cons_Some Let_def)
  qed
qed

lemma udf_edges_loop_call_edges:
  \<open>call_edges (udf_edges_loop ls t) =
     call_edges t @ filter (\<lambda>e. etype e = ''CALL'') (List.map_filter mk_edge_info ls)\<close>
proof (induction ls arbitrary: t)
  case Nil
  show ?case by (simp add: List.map_filter_def)
next
  case (Cons l ls)
  show ?case
  proof (cases \<open>edge_match (strip l)\<close>)
    case None
    then show ?thesis using Cons by (simp add: mk_edge_info_def map_filter_Cons_None)
  next
    case (Some m)
    obtain src tgt ty where m: \<open>m = (src, tgt, ty)\<close> by (cases m)
    have \<open>mk_edge_info l = Some \<lparr>source = src, target = tgt, etype = ty, line = l\<rparr>\<close>
      using Some m by (simp add: mk_edge_info_def)
    then show ?thesis using Some m Cons by (simp add: map_filter_Cons_Some Let_def)
  qed
qed

lemma adj_get_adj_append:
  \<open>adj_get (adj_append k v adj) x = (if x = k then adj_get adj k @ [v] else adj_get adj x)\<close>
  by (simp add: adj_get_def adj_append_def update_conv')

lemma udf_edges_loop_cfg_adjacency:
  \<open>adj_get (cfg_adjacency (udf_edges_loop ls t)) x =
     adj_get (cfg_adjacency t) x
     @ map target (filter (\<lambda>e. etype e = ''CFG'' \<and> source e = x) (List.map_filter mk_edge_info ls))\<close>
proof (induction ls arbitrary: t)
  case Nil
  show ?case by (simp add: List.map_filter_def)
next
  case (Cons l ls)
  show ?case
  proof (cases \<open>edge_match (strip l)\<close>)
    case None
    then show ?thesis using Cons by (simp add: mk_edge_info_def map_filter_Cons_None)
  next
    case (Some m)
    obtain src tgt ty where m: \<open>m = (src, tgt, ty)\<close> by (cases m)
    have \<open>mk_edge_info l = Some \<lparr>source = src, target = tgt, etype = ty, line = l\<rparr>\<close>
      using Some m by (simp add: mk_edge_info_def)
    then show ?thesis using Some m Cons by (simp add: map_filter_Cons_Some Let_def adj_get_adj_append)
  qed
qed

lemma udf_extract_cfg_edges:
  \<open>cfg_edges (udf_extract_edges_simple c) = filter (\<lambda>e. etype e = ''CFG'') (edge_lines (udf_extract_edges_simple c))\<close>
  by (simp add: udf_extract_edges_simple_def udf_edges_loop_cfg_edges udf_edges_loop_edge_lines)

lemma udf_extract_call_edges:
  \<open>call_edges (udf_extract_edges_simple c) = filter (\<lambda>e. etype e = ''CALL'') (edge_lines (udf_extract_edges_simple c))\<close>
  by (simp add: udf_extract_edges_simple_def udf_edges_loop_call_edges udf_edges_loop_edge_lines)

lemma udf_extract_cfg_step:
  \<open>cfg_step (cfg_adjacency (udf_extract_edges_simple c)) =
     {(source e, target e) | e. e \<in> set (cfg_edges (udf_extract_edges_simple c))}\<close>
proof -
  have \<open>adj_get [] x = []\<close> for x by (simp add: adj_get_def)
  then have \<open>set (adj_get (cfg_adjacency (udf_extract_edges_simple c)) x)
      = {target e | e. e \<in> set (cfg_edges (udf_extract_edges_simple c)) \<and> source e = x}\<close> for x
    by (auto simp: udf_extract_edges_simple_def udf_edges_loop_cfg_adjacency udf_edges_loop_cfg_edges)
  then show ?thesis by (auto simp: cfg_step_def)
qed

lemma mset_two_filters:
  \<open>(\<And>x. \<not> (A x \<and> B x)) \<Longrightarrow>
   mset (filter P (filter A xs) @ filter Q (filter B xs)) = filter_mset (\<lambda>x. (A x \<and> P x) \<or> (B x \<and> Q x)) (mset xs)\<close>
  by (induction xs) (auto simp: filter_filter_mset)


subsection \<open>The classifier\<close>

lemma dict_get_label_METHOD:
  \<open>dict_get a ''label'' '''' = ''METHOD'' \<longleftrightarrow> a ''label'' = Some ''METHOD''\<close>
  by (simp add: dict_get_def split: option.splits)

text \<open>
  Claim C1. The classifier returns true exactly when the six conditions hold together:
  the label is METHOD; IS\_EXTERNAL, lower-cased and taken as "false" when missing, is
  not "true"; neither NAME nor FULL\_NAME starts with "<operator>"; NAME is neither
  "<clinit>" nor "<global>"; FILENAME is none of "<includes>", "<empty>" and the empty
  string; AST\_PARENT\_FULL\_NAME does not contain "<includes>". A missing attribute other
  than IS\_EXTERNAL counts as the empty string, and a node whose label is not METHOD is
  never a UDF.
\<close>

theorem is_user_defined_method_iff:
  \<open>(is_user_defined_method a \<longleftrightarrow>
      dict_get a ''label'' '''' = ''METHOD''
    \<and> lower (dict_get a ''IS_EXTERNAL'' ''false'') \<noteq> ''true''
    \<and> \<not> prefix ''<operator>'' (dict_get a ''NAME'' '''')
    \<and> \<not> prefix ''<operator>'' (dict_get a ''FULL_NAME'' '''')
    \<and> dict_get a ''NAME'' '''' \<noteq> ''<clinit>''
    \<and> dict_get a ''NAME'' '''' \<noteq> ''<global>''
    \<and> dict_get a ''FILENAME'' '''' \<noteq> ''<includes>''
    \<and> dict_get a ''FILENAME'' '''' \<noteq> ''<empty>''
    \<and> dict_get a ''FILENAME'' '''' \<noteq> ''''
    \<and> \<not> sublist ''<includes>'' (dict_get a ''AST_PARENT_FULL_NAME'' ''''))
   \<and> (a ''label'' \<noteq> Some ''METHOD'' \<longrightarrow> \<not> is_user_defined_method a)\<close>
  unfolding is_user_defined_method_def Let_def dict_get_label_METHOD [symmetric]
  by auto

theorem is_user_defined_method_iff_witness:
  \<open>is_user_defined_method
      [''label'' \<mapsto> ''METHOD'', ''NAME'' \<mapsto> ''main'', ''FILENAME'' \<mapsto> ''a.c'']
   \<and> [''label'' \<mapsto> ''BLOCK'', ''NAME'' \<mapsto> ''main'', ''FILENAME'' \<mapsto> ''a.c''] ''label''
        \<noteq> Some ''METHOD''
   \<and> \<not> is_user_defined_method
        [''label'' \<mapsto> ''BLOCK'', ''NAME'' \<mapsto> ''main'', ''FILENAME'' \<mapsto> ''a.c'']\<close>
  using
    is_user_defined_method_iff
      [of \<open>[''label'' \<mapsto> ''METHOD'', ''NAME'' \<mapsto> ''main'', ''FILENAME'' \<mapsto> ''a.c'']\<close>]
    is_user_defined_method_iff
      [of \<open>[''label'' \<mapsto> ''BLOCK'', ''NAME'' \<mapsto> ''main'', ''FILENAME'' \<mapsto> ''a.c'']\<close>]
  by (simp add: dict_get_def lower_def lower_char_def sublist_code)

subsection \<open>Producer and verifier classify alike\<close>

text \<open>
  Claim C9. The verifier's copy of the classifier returns the same boolean as the
  producer's on every attribute dictionary, so the seed set the verifier recomputes over
  a node table is the producer's seed set over the same table.
\<close>

theorem verifier_classifier_agrees:
  \<open>verifier_is_user_defined_method a = is_user_defined_method a
   \<and> original_udfs tbl = udf_methods (map (\<lambda>(node_id, d). (node_id, attributes d)) tbl)\<close>
proof
  show eq: \<open>verifier_is_user_defined_method a = is_user_defined_method a\<close> for a
    by (simp add: verifier_is_user_defined_method_def is_user_defined_method_def)
  have \<open>map fst (filter (\<lambda>(node_id, d). attributes d ''label'' = Some ''METHOD''
            \<and> is_user_defined_method (attributes d)) tbl)
        = map fst (filter (\<lambda>(node_id, attrs). attrs ''label'' = Some ''METHOD''
            \<and> is_user_defined_method attrs) (map (\<lambda>(node_id, d). (node_id, attributes d)) tbl))\<close>
    by (induction tbl) auto
  then show \<open>original_udfs tbl = udf_methods (map (\<lambda>(node_id, d). (node_id, attributes d)) tbl)\<close>
    by (simp add: original_udfs_def udf_methods_def eq)
qed

subsection \<open>Edge retention\<close>

text \<open>
  Claim C2. For every graph text, every set of kept nodes and every seed set, the edge
  filter keeps a CFG edge exactly when its source and its target are both kept nodes,
  keeps a CALL edge exactly when its source is a kept node and its target is in the seed
  set (a kept target that is no seed does not suffice), and drops every edge of another
  type; an edge is kept as often as it occurs.
\<close>

theorem edge_retention_rule:
  \<open>mset (filter_kept_edges (udf_extract_edges_simple dot_content) kept_nodes udfs)
     = filter_mset
         (\<lambda>edge. (etype edge = ''CFG'' \<and> source edge \<in> kept_nodes \<and> target edge \<in> kept_nodes)
                \<or> (etype edge = ''CALL'' \<and> source edge \<in> kept_nodes \<and> target edge \<in> udfs))
         (mset (edge_lines (udf_extract_edges_simple dot_content)))
   \<and> (\<forall>edge. edge \<in> set (filter_kept_edges (udf_extract_edges_simple dot_content) kept_nodes udfs)
        \<longleftrightarrow> edge \<in> set (edge_lines (udf_extract_edges_simple dot_content))
            \<and> ((etype edge = ''CFG'' \<and> source edge \<in> kept_nodes \<and> target edge \<in> kept_nodes)
               \<or> (etype edge = ''CALL'' \<and> source edge \<in> kept_nodes \<and> target edge \<in> udfs)))\<close>
proof -
  let ?t = \<open>udf_extract_edges_simple dot_content\<close>
  have m: \<open>mset (filter_kept_edges ?t kept_nodes udfs)
     = filter_mset
         (\<lambda>edge. (etype edge = ''CFG'' \<and> source edge \<in> kept_nodes \<and> target edge \<in> kept_nodes)
                \<or> (etype edge = ''CALL'' \<and> source edge \<in> kept_nodes \<and> target edge \<in> udfs))
         (mset (edge_lines ?t))\<close>
    unfolding filter_kept_edges_def udf_extract_cfg_edges udf_extract_call_edges
    by (rule mset_two_filters) auto
  have \<open>set (filter_kept_edges ?t kept_nodes udfs)
     = {edge \<in> set (edge_lines ?t).
          (etype edge = ''CFG'' \<and> source edge \<in> kept_nodes \<and> target edge \<in> kept_nodes)
          \<or> (etype edge = ''CALL'' \<and> source edge \<in> kept_nodes \<and> target edge \<in> udfs)}\<close>
    using arg_cong [OF m, of set_mset] by simp
  with m show ?thesis by blast
qed

theorem edge_retention_rule_witness:
  \<open>(let t = udf_extract_edges_simple
          (join_nl
            [''"A" -> "C" [label="CFG"];'',
             ''"A" -> "C" [label="CALL"];'',
             ''"A" -> "A" [label="CALL"];'',
             ''"A" -> "C" [label="AST"];'']);
        dropped_call =
          \<lparr>source = ''A'', target = ''C'', etype = ''CALL'', line = ''"A" -> "C" [label="CALL"];''\<rparr>
    in dropped_call \<in> set (edge_lines t)
       \<and> ''A'' \<in> {''A'', ''C''} \<and> ''C'' \<in> {''A'', ''C''} \<and> ''C'' \<notin> {''A''}
       \<and> dropped_call \<notin> set (filter_kept_edges t {''A'', ''C''} {''A''})
       \<and> map line (filter_kept_edges t {''A'', ''C''} {''A''})
           = [''"A" -> "C" [label="CFG"];'', ''"A" -> "A" [label="CALL"];''])\<close>
proof -
  let ?c = \<open>join_nl
            [''"A" -> "C" [label="CFG"];'',
             ''"A" -> "C" [label="CALL"];'',
             ''"A" -> "A" [label="CALL"];'',
             ''"A" -> "C" [label="AST"];'']\<close>
  let ?e = \<open>\<lparr>source = ''A'', target = ''C'', etype = ''CALL'', line = ''"A" -> "C" [label="CALL"];''\<rparr>\<close>
  note th = edge_retention_rule [of ?c \<open>{''A'', ''C''}\<close> \<open>{''A''}\<close>, THEN conjunct2, rule_format, of ?e]
  have 1: \<open>?e \<in> set (edge_lines (udf_extract_edges_simple ?c))\<close>
    by code_simp
  have 2: \<open>?e \<notin> set (filter_kept_edges (udf_extract_edges_simple ?c) {''A'', ''C''} {''A''})\<close>
    unfolding th by simp
  have 3: \<open>map line (filter_kept_edges (udf_extract_edges_simple ?c) {''A'', ''C''} {''A''})
           = [''"A" -> "C" [label="CFG"];'', ''"A" -> "A" [label="CALL"];'']\<close>
    by code_simp
  show ?thesis
    unfolding Let_def using 1 2 3 by simp
qed


subsection \<open>The reachability slicer\<close>

lemma bfs_loop_superset: \<open>visited \<subseteq> bfs_loop adj visited queue\<close>
proof (induction adj visited queue rule: bfs_loop.induct)
  case (1 adj visited)
  then show ?case by simp
next
  case (2 adj visited current queue)
  obtain v' q' where vq: \<open>visit_neighbors (adj_get adj current) (visited, queue) = (v', q')\<close>
    by (cases \<open>visit_neighbors (adj_get adj current) (visited, queue)\<close>)
  then have \<open>v' = visited \<union> set (adj_get adj current)\<close>
    using visit_neighbors_visited [of \<open>adj_get adj current\<close> visited queue] by simp
  moreover have \<open>v' \<subseteq> bfs_loop adj v' q'\<close>
    using 2 [OF vq [symmetric]] .
  ultimately show ?case using vq by auto
qed

lemma bfs_loop_closed:
  assumes \<open>set queue \<subseteq> visited\<close>
    and \<open>\<forall>x \<in> visited - set queue. set (adj_get adj x) \<subseteq> visited\<close>
    and \<open>x \<in> bfs_loop adj visited queue\<close>
  shows \<open>set (adj_get adj x) \<subseteq> bfs_loop adj visited queue\<close>
  using assms
proof (induction adj visited queue rule: bfs_loop.induct)
  case (1 adj visited)
  then show ?case by simp
next
  case (2 adj visited current queue)
  let ?ns = \<open>adj_get adj current\<close>
  obtain v' q' where vq: \<open>visit_neighbors ?ns (visited, queue) = (v', q')\<close>
    by (cases \<open>visit_neighbors ?ns (visited, queue)\<close>)
  have v': \<open>v' = visited \<union> set ?ns\<close>
    using vq visit_neighbors_visited [of ?ns visited queue] by simp
  have q': \<open>set q' = set queue \<union> (set ?ns - visited)\<close>
    using vq visit_neighbors_queue [of ?ns visited queue] by simp
  have a: \<open>set q' \<subseteq> v'\<close>
    using 2(2) v' q' by auto
  have b: \<open>\<forall>x \<in> v' - set q'. set (adj_get adj x) \<subseteq> v'\<close>
  proof
    fix y assume y: \<open>y \<in> v' - set q'\<close>
    then have \<open>y \<in> visited\<close> \<open>y \<notin> set queue\<close> using v' q' by auto
    show \<open>set (adj_get adj y) \<subseteq> v'\<close>
    proof (cases \<open>y = current\<close>)
      case True
      then show ?thesis using v' by simp
    next
      case False
      with \<open>y \<in> visited\<close> \<open>y \<notin> set queue\<close> have \<open>y \<in> visited - set (current # queue)\<close> by simp
      with 2(3) have \<open>set (adj_get adj y) \<subseteq> visited\<close> by blast
      then show ?thesis using v' by auto
    qed
  qed
  have c: \<open>x \<in> bfs_loop adj v' q'\<close> using 2(4) vq by simp
  have \<open>set (adj_get adj x) \<subseteq> bfs_loop adj v' q'\<close>
    using 2(1) [OF vq [symmetric] a b c] .
  then show ?case using vq by simp
qed

lemma bfs_loop_least:
  assumes \<open>set queue \<subseteq> visited\<close>
    and \<open>visited \<subseteq> S\<close>
    and \<open>\<forall>x \<in> S. set (adj_get adj x) \<subseteq> S\<close>
  shows \<open>bfs_loop adj visited queue \<subseteq> S\<close>
  using assms
proof (induction adj visited queue rule: bfs_loop.induct)
  case (1 adj visited)
  then show ?case by simp
next
  case (2 adj visited current queue)
  let ?ns = \<open>adj_get adj current\<close>
  obtain v' q' where vq: \<open>visit_neighbors ?ns (visited, queue) = (v', q')\<close>
    by (cases \<open>visit_neighbors ?ns (visited, queue)\<close>)
  have v': \<open>v' = visited \<union> set ?ns\<close>
    using vq visit_neighbors_visited [of ?ns visited queue] by simp
  have q': \<open>set q' = set queue \<union> (set ?ns - visited)\<close>
    using vq visit_neighbors_queue [of ?ns visited queue] by simp
  have a: \<open>set q' \<subseteq> v'\<close>
    using 2(2) v' q' by auto
  have \<open>current \<in> S\<close> using 2(2,3) by auto
  then have \<open>set ?ns \<subseteq> S\<close> using 2(4) by blast
  then have b: \<open>v' \<subseteq> S\<close> using v' 2(3) by simp
  have \<open>bfs_loop adj v' q' \<subseteq> S\<close>
    using 2(1) [OF vq [symmetric] a b 2(4)] .
  then show ?case using vq by simp
qed

lemma bfs_cfg_reachable_rtrancl:
  \<open>bfs_cfg_reachable adj s = {y. (s, y) \<in> (cfg_step adj)\<^sup>*}\<close>
proof
  let ?R = \<open>{y. (s, y) \<in> (cfg_step adj)\<^sup>*}\<close>
  have \<open>\<forall>x \<in> ?R. set (adj_get adj x) \<subseteq> ?R\<close>
    by (auto simp: cfg_step_def intro: rtrancl_into_rtrancl)
  then show \<open>bfs_cfg_reachable adj s \<subseteq> ?R\<close>
    unfolding bfs_cfg_reachable_def by (intro bfs_loop_least) auto
next
  let ?B = \<open>bfs_cfg_reachable adj s\<close>
  have s: \<open>s \<in> ?B\<close>
    unfolding bfs_cfg_reachable_def using bfs_loop_superset [of \<open>{s}\<close> adj \<open>[s]\<close>] by simp
  have cl: \<open>set (adj_get adj x) \<subseteq> ?B\<close> if \<open>x \<in> ?B\<close> for x
    using that unfolding bfs_cfg_reachable_def by (intro bfs_loop_closed) auto
  have \<open>y \<in> ?B\<close> if \<open>(s, y) \<in> (cfg_step adj)\<^sup>*\<close> for y
    using that
  proof (induction rule: rtrancl_induct)
    case base
    show ?case by (rule s)
  next
    case (step y z)
    then show ?case using cl [of y] by (auto simp: cfg_step_def)
  qed
  then show \<open>{y. (s, y) \<in> (cfg_step adj)\<^sup>*} \<subseteq> ?B\<close> by blast
qed

lemma kept_nodes_of_rtrancl: \<open>kept_nodes_of adj U = (cfg_step adj)\<^sup>* `` U\<close>
  by (auto simp: kept_nodes_of_def bfs_cfg_reachable_rtrancl)


text \<open>
  Claim C3. For every CFG adjacency and every seed set \<open>U\<close>, the set of kept nodes
  contains \<open>U\<close>, is closed under following a CFG edge forward, is contained in every set
  with these two properties, and is therefore the set of nodes reachable from \<open>U\<close>; the
  traversal is a total function, also on a graph with cycles; and a seed without outgoing
  CFG edges reaches itself only.
\<close>

theorem slice_closure:
  \<open>U \<subseteq> kept_nodes_of adj U
   \<and> (\<forall>x y. x \<in> kept_nodes_of adj U \<and> (x, y) \<in> cfg_step adj \<longrightarrow> y \<in> kept_nodes_of adj U)
   \<and> (\<forall>S. U \<subseteq> S \<and> (\<forall>x y. x \<in> S \<and> (x, y) \<in> cfg_step adj \<longrightarrow> y \<in> S) \<longrightarrow> kept_nodes_of adj U \<subseteq> S)
   \<and> kept_nodes_of adj U = (cfg_step adj)\<^sup>* `` U
   \<and> (adj_get adj s = [] \<longrightarrow> bfs_cfg_reachable adj s = {s})\<close>
proof (intro conjI allI impI)
  show \<open>U \<subseteq> kept_nodes_of adj U\<close>
    by (auto simp: kept_nodes_of_rtrancl)
  show \<open>y \<in> kept_nodes_of adj U\<close>
    if \<open>x \<in> kept_nodes_of adj U \<and> (x, y) \<in> cfg_step adj\<close> for x y
    using that by (auto simp: kept_nodes_of_rtrancl intro: rtrancl_into_rtrancl)
  show \<open>kept_nodes_of adj U \<subseteq> S\<close>
    if h: \<open>U \<subseteq> S \<and> (\<forall>x y. x \<in> S \<and> (x, y) \<in> cfg_step adj \<longrightarrow> y \<in> S)\<close> for S
  proof
    fix y assume \<open>y \<in> kept_nodes_of adj U\<close>
    then obtain u where u: \<open>u \<in> U\<close> \<open>(u, y) \<in> (cfg_step adj)\<^sup>*\<close>
      by (auto simp: kept_nodes_of_rtrancl)
    from u(2) show \<open>y \<in> S\<close>
    proof (induction rule: rtrancl_induct)
      case base
      show ?case using u(1) h by auto
    next
      case (step y z)
      then show ?case using h by blast
    qed
  qed
  show \<open>kept_nodes_of adj U = (cfg_step adj)\<^sup>* `` U\<close>
    by (rule kept_nodes_of_rtrancl)
  show \<open>bfs_cfg_reachable adj s = {s}\<close> if \<open>adj_get adj s = []\<close>
    using that by (simp add: bfs_cfg_reachable_def)
qed

theorem slice_closure_witness:
  \<open>{''A''} \<subseteq> kept_nodes_of [(''A'', [''C'']), (''C'', [''A''])] {''A''}
   \<and> ''A'' \<in> kept_nodes_of [(''A'', [''C'']), (''C'', [''A''])] {''A''}
   \<and> (''A'', ''C'') \<in> cfg_step [(''A'', [''C'']), (''C'', [''A''])]
   \<and> ''C'' \<in> kept_nodes_of [(''A'', [''C'']), (''C'', [''A''])] {''A''}
   \<and> kept_nodes_of [(''A'', [''C'']), (''C'', [''A''])] {''A''} \<subseteq> {''A'', ''C'', ''D''}
   \<and> adj_get [(''A'', [''C'']), (''C'', [''A''])] ''B'' = []
   \<and> bfs_cfg_reachable [(''A'', [''C'']), (''C'', [''A''])] ''B'' = {''B''}
   \<and> kept_nodes_of [(''A'', [''C'']), (''C'', [''A''])] {''A''} = {''A'', ''C''}\<close>
proof -
  let ?adj = \<open>[(''A'', [''C'']), (''C'', [''A''])]\<close>
  note th = slice_closure [of \<open>{''A''}\<close> ?adj \<open>''B''\<close>]
  note seeds = th [THEN conjunct1]
  note closed = th [THEN conjunct2, THEN conjunct1, rule_format, OF conjI]
  note least = th [THEN conjunct2, THEN conjunct2, THEN conjunct1, rule_format, OF conjI]
  note alone = th [THEN conjunct2, THEN conjunct2, THEN conjunct2, THEN conjunct2, rule_format]
  have 1: \<open>{''A''} \<subseteq> kept_nodes_of ?adj {''A''}\<close>
    by (rule seeds)
  then have 2: \<open>''A'' \<in> kept_nodes_of ?adj {''A''}\<close>
    by simp
  have 3: \<open>(''A'', ''C'') \<in> cfg_step ?adj\<close>
    by (simp add: cfg_step_def adj_get_def)
  have 4: \<open>''C'' \<in> kept_nodes_of ?adj {''A''}\<close>
    by (rule closed [OF 2 3])
  have c: \<open>\<forall>x y. x \<in> {''A'', ''C'', ''D''} \<and> (x, y) \<in> cfg_step ?adj \<longrightarrow> y \<in> {''A'', ''C'', ''D''}\<close>
    by (simp add: cfg_step_def adj_get_def)
  have s: \<open>{''A''} \<subseteq> {''A'', ''C'', ''D''}\<close>
    by simp
  have 5: \<open>kept_nodes_of ?adj {''A''} \<subseteq> {''A'', ''C'', ''D''}\<close>
    by (rule least [OF s c])
  have 6: \<open>adj_get ?adj ''B'' = []\<close>
    by (simp add: adj_get_def)
  have 7: \<open>bfs_cfg_reachable ?adj ''B'' = {''B''}\<close>
    by (rule alone [OF 6])
  have 8: \<open>kept_nodes_of ?adj {''A''} = {''A'', ''C''}\<close>
    by code_simp
  show ?thesis
    by (intro conjI) (fact 1 2 3 4 5 6 7 8)+
qed

subsection \<open>The written output of the UDF filter\<close>

lemma distinct_udf_nodes_loop:
  \<open>distinct (map fst node_lines) \<Longrightarrow> distinct (map fst (udf_nodes_loop node_ids ls node_lines))\<close>
proof (induction node_ids ls node_lines rule: udf_nodes_loop.induct)
  case (1 node_ids node_lines)
  then show ?case by simp
next
  case (2 node_ids l ls node_lines)
  then show ?case
    by (auto simp: Let_def distinct_update split: option.splits prod.splits)
qed

lemma mk_edge_info_line: \<open>mk_edge_info l = Some e \<Longrightarrow> line e = l\<close>
  by (auto simp: mk_edge_info_def split: option.splits)

lemma map_filter_set: \<open>set (List.map_filter f xs) = {y. \<exists>x \<in> set xs. f x = Some y}\<close>
  by (induction xs) (auto simp: List.map_filter_def)

lemma udf_edge_lines_from_input:
  \<open>e \<in> set (edge_lines (udf_extract_edges_simple c)) \<Longrightarrow> line e \<in> set (split_nl c)\<close>
  by (auto simp: udf_extract_edges_simple_def udf_edges_loop_edge_lines map_filter_set
      dest: mk_edge_info_line)




subsection \<open>The edge pass of the subgraph extractor\<close>

lemma parse_edges_loop_eq:
  \<open>parse_edges_loop ls edges = edges @ List.map_filter mk_parsed_edge ls\<close>
proof (induction ls arbitrary: edges)
  case Nil
  show ?case by (simp add: List.map_filter_def)
next
  case (Cons l ls)
  show ?case
  proof (cases \<open>edge_match (strip l)\<close>)
    case None
    then show ?thesis using Cons by (simp add: mk_parsed_edge_def map_filter_Cons_None)
  next
    case (Some m)
    obtain src tgt ty where m: \<open>m = (src, tgt, ty)\<close> by (cases m)
    have \<open>mk_parsed_edge l = Some \<lparr>source = src, target = tgt, etype = ty, raw_line = strip l\<rparr>\<close>
      using Some m by (simp add: mk_parsed_edge_def)
    then show ?thesis using Some m Cons by (simp add: map_filter_Cons_Some Let_def)
  qed
qed

lemma subgraph_edges_loop_eq:
  \<open>subgraph_edges_loop S ls (acc, cn) =
     (acc @ map raw_line (filter (\<lambda>e. etype e \<in> S) (List.map_filter mk_parsed_edge ls)),
      cn \<union> (\<Union>e \<in> set (filter (\<lambda>e. etype e \<in> S) (List.map_filter mk_parsed_edge ls)).
         {source e, target e}))\<close>
proof (induction ls arbitrary: acc cn)
  case Nil
  show ?case by (simp add: List.map_filter_def)
next
  case (Cons l ls)
  show ?case
  proof (cases \<open>edge_match (strip l)\<close>)
    case None
    then show ?thesis using Cons by (simp add: mk_parsed_edge_def map_filter_Cons_None)
  next
    case (Some m)
    obtain src tgt ty where m: \<open>m = (src, tgt, ty)\<close> by (cases m)
    have \<open>mk_parsed_edge l = Some \<lparr>source = src, target = tgt, etype = ty, raw_line = strip l\<rparr>\<close>
      using Some m by (simp add: mk_parsed_edge_def)
    then show ?thesis using Some m Cons by (auto simp: map_filter_Cons_Some Let_def)
  qed
qed

lemma mk_parsed_edge_match:
  \<open>mk_parsed_edge l = Some e \<Longrightarrow> edge_match (raw_line e) = Some (source e, target e, etype e)\<close>
  by (auto simp: mk_parsed_edge_def split: option.splits)

lemma parsed_edges_match:
  \<open>map edge_match (map raw_line (filter P (List.map_filter mk_parsed_edge ls)))
     = map (\<lambda>e. Some (source e, target e, etype e)) (filter P (List.map_filter mk_parsed_edge ls))\<close>
  by (auto simp: map_filter_set dest: mk_parsed_edge_match)


subsection \<open>Edge recognition\<close>

lemma quoted_id_SomeD:
  \<open>quoted_id s = Some (a, r) \<Longrightarrow> s = [dquote] @ a @ [dquote] @ r \<and> a \<noteq> [] \<and> dquote \<notin> set a\<close>
proof -
  assume h: \<open>quoted_id s = Some (a, r)\<close>
  then obtain cs where s: \<open>s = dquote # cs\<close>
    by (cases s) (auto simp: quoted_id_def split: if_splits)
  let ?i = \<open>takeWhile (\<lambda>x. x \<noteq> dquote) cs\<close>
  let ?d = \<open>dropWhile (\<lambda>x. x \<noteq> dquote) cs\<close>
  from h s have a: \<open>a = ?i\<close> \<open>?i \<noteq> []\<close> \<open>?d \<noteq> []\<close> \<open>r = tl ?d\<close>
    by (auto simp: quoted_id_def Let_def split: if_splits)
  have \<open>hd ?d = dquote\<close>
    using a(3) hd_dropWhile [of \<open>\<lambda>x. x \<noteq> dquote\<close> cs] by auto
  then have \<open>?d = dquote # r\<close>
    using a(3,4) by (cases ?d) auto
  then have \<open>cs = a @ dquote # r\<close>
    using takeWhile_dropWhile_id [of \<open>\<lambda>x. x \<noteq> dquote\<close> cs] a(1) by simp
  moreover have \<open>dquote \<notin> set a\<close>
    unfolding a(1) by (auto dest: set_takeWhileD)
  ultimately show ?thesis using s a by simp
qed

lemma takeWhile_neq_append:
  \<open>c \<notin> set xs \<Longrightarrow> takeWhile (\<lambda>x. x \<noteq> c) (xs @ ys) = xs @ takeWhile (\<lambda>x. x \<noteq> c) ys\<close>
  by (induction xs) auto

lemma dropWhile_neq_append:
  \<open>c \<notin> set xs \<Longrightarrow> dropWhile (\<lambda>x. x \<noteq> c) (xs @ ys) = dropWhile (\<lambda>x. x \<noteq> c) ys\<close>
  by (induction xs) auto

lemma quoted_id_SomeI:
  \<open>a \<noteq> [] \<Longrightarrow> dquote \<notin> set a \<Longrightarrow> quoted_id ([dquote] @ a @ [dquote] @ r) = Some (a, r)\<close>
proof -
  assume a: \<open>a \<noteq> []\<close> \<open>dquote \<notin> set a\<close>
  have t: \<open>takeWhile (\<lambda>x. x \<noteq> dquote) (a @ dquote # r) = a\<close>
    using a(2) by (simp add: takeWhile_neq_append)
  have d: \<open>dropWhile (\<lambda>x. x \<noteq> dquote) (a @ dquote # r) = dquote # r\<close>
    using a(2) by (simp add: dropWhile_neq_append)
  show ?thesis using a(1) t d by (simp add: quoted_id_def)
qed

lemma dropWhile_spaces_split:
  \<open>\<exists>ws. r = ws @ dropWhile isspace r \<and> list_all isspace ws\<close>
  by (rule exI [of _ \<open>takeWhile isspace r\<close>]) (auto simp: list_all_iff dest: set_takeWhileD)

lemma dropWhile_spaces_skip:
  \<open>list_all isspace ws \<Longrightarrow> \<not> isspace c \<Longrightarrow> dropWhile isspace (ws @ c # r) = c # r\<close>
  by (simp add: dropWhile_append2 list_all_iff)

lemma greedy_label_SomeD:
  \<open>greedy_label r = Some t \<Longrightarrow> \<exists>pre r'. r = pre @ r' \<and> newline \<notin> set pre \<and> label_here r' = Some t\<close>
proof (induction r)
  case Nil
  then show ?case by auto
next
  case (Cons c cs)
  show ?case
  proof (cases \<open>c \<noteq> newline \<and> greedy_label cs = Some t\<close>)
    case True
    with Cons.IH obtain pre r' where \<open>cs = pre @ r'\<close> \<open>newline \<notin> set pre\<close> \<open>label_here r' = Some t\<close>
      by blast
    with True have \<open>c # cs = (c # pre) @ r' \<and> newline \<notin> set (c # pre) \<and> label_here r' = Some t\<close>
      by auto
    then show ?thesis by blast
  next
    case False
    with Cons.prems have \<open>label_here (c # cs) = Some t\<close>
      by (auto split: if_splits option.splits)
    then have \<open>c # cs = [] @ (c # cs) \<and> newline \<notin> set [] \<and> label_here (c # cs) = Some t\<close>
      by simp
    then show ?thesis by blast
  qed
qed

lemma greedy_label_complete:
  \<open>newline \<notin> set pre \<Longrightarrow> label_here r \<noteq> None \<Longrightarrow> greedy_label (pre @ r) \<noteq> None\<close>
proof (induction pre)
  case Nil
  then show ?case by (cases r) (auto split: option.splits)
next
  case (Cons c pre)
  then show ?case by (auto split: option.splits)
qed

lemma sublist_takeWhile_split:
  \<open>sublist p (takeWhile (\<lambda>x. x \<noteq> newline) r) \<Longrightarrow>
     \<exists>post rest. r = post @ p @ rest \<and> newline \<notin> set post\<close>
proof -
  assume \<open>sublist p (takeWhile (\<lambda>x. x \<noteq> newline) r)\<close>
  then obtain post ss where ps: \<open>takeWhile (\<lambda>x. x \<noteq> newline) r = post @ p @ ss\<close>
    by (auto simp: sublist_def)
  then have \<open>newline \<notin> set post\<close>
    by (metis (mono_tags, lifting) Un_iff set_append set_takeWhileD)
  moreover have \<open>r = post @ p @ (ss @ dropWhile (\<lambda>x. x \<noteq> newline) r)\<close>
    using takeWhile_dropWhile_id [of \<open>\<lambda>x. x \<noteq> newline\<close> r] ps by (metis append.assoc)
  ultimately show ?thesis by blast
qed

lemma label_here_SomeD:
  \<open>label_here r = Some t \<Longrightarrow>
     \<exists>post rest. r = ''label='' @ [dquote] @ t @ [dquote] @ post @ ''];'' @ rest
        \<and> t \<noteq> [] \<and> dquote \<notin> set t \<and> newline \<notin> set post\<close>
proof -
  assume h: \<open>label_here r = Some t\<close>
  then have p: \<open>prefix ''label='' r\<close>
    by (auto simp: label_here_def split: if_splits)
  then have r: \<open>r = ''label='' @ drop 6 r\<close>
    by (auto simp: prefix_def)
  from h p obtain r5 where q: \<open>quoted_id (drop 6 r) = Some (t, r5)\<close>
    and sl: \<open>sublist ''];'' (takeWhile (\<lambda>x. x \<noteq> newline) r5)\<close>
    by (auto simp: label_here_def split: if_splits option.splits)
  from quoted_id_SomeD [OF q] have d: \<open>drop 6 r = [dquote] @ t @ [dquote] @ r5\<close>
    and t: \<open>t \<noteq> []\<close> \<open>dquote \<notin> set t\<close> by simp_all
  from sublist_takeWhile_split [OF sl] obtain post rest
    where r5: \<open>r5 = post @ ''];'' @ rest\<close> \<open>newline \<notin> set post\<close> by blast
  have \<open>r = ''label='' @ [dquote] @ t @ [dquote] @ post @ ''];'' @ rest\<close>
    using r d r5(1) by (metis append.assoc)
  with t r5(2) show ?thesis by blast
qed

lemma label_here_SomeI:
  assumes \<open>t \<noteq> []\<close> \<open>dquote \<notin> set t\<close> \<open>newline \<notin> set post\<close>
  shows \<open>label_here (''label='' @ [dquote] @ t @ [dquote] @ post @ ''];'' @ rest) = Some t\<close>
proof -
  have q: \<open>quoted_id ([dquote] @ t @ [dquote] @ (post @ ''];'' @ rest)) = Some (t, post @ ''];'' @ rest)\<close>
    using assms(1,2) by (rule quoted_id_SomeI)
  have \<open>takeWhile (\<lambda>x. x \<noteq> newline) (post @ ''];'' @ rest)
          = post @ ''];'' @ takeWhile (\<lambda>x. x \<noteq> newline) rest\<close>
    using assms(3) by (simp add: takeWhile_neq_append newline_def)
  then have s: \<open>sublist ''];'' (takeWhile (\<lambda>x. x \<noteq> newline) (post @ ''];'' @ rest))\<close>
    by (metis sublist_appendI)
  show ?thesis
    using q s by (simp add: label_here_def)
qed


lemma not_isspace_minus: \<open>\<not> isspace CHR ''-''\<close>
  and not_isspace_dquote: \<open>\<not> isspace dquote\<close>
  and not_isspace_bracket: \<open>\<not> isspace CHR ''[''\<close>
  by (simp_all add: isspace_def dquote_def)

lemma edge_match_sound:
  assumes \<open>edge_match s = Some (a, b, t)\<close>
  shows \<open>edge_shape s a b t\<close>
proof -
  from assms obtain r1 where q1: \<open>quoted_id s = Some (a, r1)\<close>
    by (auto simp: edge_match_def Let_def split: option.splits if_splits list.splits)
  let ?r2 = \<open>dropWhile isspace r1\<close>
  from assms q1 have p: \<open>prefix ''->'' ?r2\<close>
    by (auto simp: edge_match_def Let_def split: option.splits if_splits list.splits)
  let ?r2' = \<open>dropWhile isspace (drop 2 ?r2)\<close>
  from assms q1 p obtain r3 where q2: \<open>quoted_id ?r2' = Some (b, r3)\<close>
    by (auto simp: edge_match_def Let_def split: option.splits if_splits list.splits)
  from assms q1 p q2 obtain r4 where br: \<open>dropWhile isspace r3 = CHR ''['' # r4\<close>
    and g: \<open>greedy_label r4 = Some t\<close>
    by (auto simp: edge_match_def Let_def split: option.splits if_splits list.splits)
  from quoted_id_SomeD [OF q1] have s: \<open>s = [dquote] @ a @ [dquote] @ r1\<close>
    and a: \<open>a \<noteq> []\<close> \<open>dquote \<notin> set a\<close> by simp_all
  obtain ws1 where w1: \<open>r1 = ws1 @ ?r2\<close> \<open>list_all isspace ws1\<close>
    using dropWhile_spaces_split [of r1] by blast
  from p have r2: \<open>?r2 = ''->'' @ drop 2 ?r2\<close>
    by (auto simp: prefix_def)
  obtain ws2 where w2: \<open>drop 2 ?r2 = ws2 @ ?r2'\<close> \<open>list_all isspace ws2\<close>
    using dropWhile_spaces_split [of \<open>drop 2 ?r2\<close>] by blast
  from quoted_id_SomeD [OF q2] have r2': \<open>?r2' = [dquote] @ b @ [dquote] @ r3\<close>
    and b: \<open>b \<noteq> []\<close> \<open>dquote \<notin> set b\<close> by simp_all
  obtain ws3 where w3: \<open>r3 = ws3 @ dropWhile isspace r3\<close> \<open>list_all isspace ws3\<close>
    using dropWhile_spaces_split [of r3] by blast
  from greedy_label_SomeD [OF g] obtain pre r' where r4: \<open>r4 = pre @ r'\<close>
    and pre: \<open>newline \<notin> set pre\<close> and lh: \<open>label_here r' = Some t\<close> by blast
  from label_here_SomeD [OF lh] obtain post rest
    where r': \<open>r' = ''label='' @ [dquote] @ t @ [dquote] @ post @ ''];'' @ rest\<close>
      and t: \<open>t \<noteq> []\<close> \<open>dquote \<notin> set t\<close> and post: \<open>newline \<notin> set post\<close> by blast
  have \<open>r3 = ws3 @ ''['' @ pre @ r'\<close>
    using w3(1) br r4 by simp
  then have \<open>?r2' = [dquote] @ b @ [dquote] @ ws3 @ ''['' @ pre @ r'\<close>
    using r2' by simp
  then have \<open>drop 2 ?r2 = ws2 @ [dquote] @ b @ [dquote] @ ws3 @ ''['' @ pre @ r'\<close>
    using w2(1) by simp
  then have \<open>?r2 = ''->'' @ ws2 @ [dquote] @ b @ [dquote] @ ws3 @ ''['' @ pre @ r'\<close>
    using r2 by simp
  then have \<open>r1 = ws1 @ ''->'' @ ws2 @ [dquote] @ b @ [dquote] @ ws3 @ ''['' @ pre @ r'\<close>
    using w1(1) by simp
  then have \<open>s = [dquote] @ a @ [dquote] @ ws1 @ ''->'' @ ws2 @ [dquote] @ b @ [dquote] @ ws3
            @ ''['' @ pre @ ''label='' @ [dquote] @ t @ [dquote] @ post @ ''];'' @ rest\<close>
    using s r' by simp
  moreover have \<open>list_all isspace (ws1 @ ws2 @ ws3)\<close>
    using w1(2) w2(2) w3(2) by simp
  ultimately show ?thesis
    unfolding edge_shape_def using a b t pre post by blast
qed

lemma edge_match_complete:
  assumes \<open>edge_shape s a b t\<close>
  shows \<open>\<exists>t'. edge_match s = Some (a, b, t')\<close>
proof -
  from assms obtain ws1 ws2 ws3 pre post rest where
    s: \<open>s = [dquote] @ a @ [dquote] @ ws1 @ ''->'' @ ws2 @ [dquote] @ b @ [dquote] @ ws3
            @ ''['' @ pre @ ''label='' @ [dquote] @ t @ [dquote] @ post @ ''];'' @ rest\<close>
    and a: \<open>a \<noteq> []\<close> \<open>dquote \<notin> set a\<close> and b: \<open>b \<noteq> []\<close> \<open>dquote \<notin> set b\<close>
    and t: \<open>t \<noteq> []\<close> \<open>dquote \<notin> set t\<close>
    and ws: \<open>list_all isspace ws1\<close> \<open>list_all isspace ws2\<close> \<open>list_all isspace ws3\<close>
    and pre: \<open>newline \<notin> set pre\<close> and post: \<open>newline \<notin> set post\<close>
    unfolding edge_shape_def by auto
  let ?r' = \<open>''label='' @ [dquote] @ t @ [dquote] @ post @ ''];'' @ rest\<close>
  let ?r4 = \<open>pre @ ?r'\<close>
  let ?r3 = \<open>ws3 @ CHR ''['' # ?r4\<close>
  let ?q2 = \<open>[dquote] @ b @ [dquote] @ ?r3\<close>
  let ?r1 = \<open>ws1 @ CHR ''-'' # CHR ''>'' # ws2 @ dquote # b @ [dquote] @ ?r3\<close>
  have s': \<open>s = [dquote] @ a @ [dquote] @ ?r1\<close>
    using s by simp
  have q1: \<open>quoted_id s = Some (a, ?r1)\<close>
    unfolding s' using a by (rule quoted_id_SomeI)
  have d1: \<open>dropWhile isspace ?r1 = CHR ''-'' # CHR ''>'' # ws2 @ dquote # b @ [dquote] @ ?r3\<close>
    using ws(1) not_isspace_minus by (rule dropWhile_spaces_skip)
  have d2: \<open>dropWhile isspace (ws2 @ dquote # b @ [dquote] @ ?r3) = dquote # b @ [dquote] @ ?r3\<close>
    using ws(2) not_isspace_dquote by (rule dropWhile_spaces_skip)
  have q2: \<open>quoted_id ?q2 = Some (b, ?r3)\<close>
    using b by (rule quoted_id_SomeI)
  have d3: \<open>dropWhile isspace ?r3 = CHR ''['' # ?r4\<close>
    using ws(3) not_isspace_bracket by (rule dropWhile_spaces_skip)
  have \<open>label_here ?r' = Some t\<close>
    using t post by (rule label_here_SomeI)
  then have \<open>greedy_label ?r4 \<noteq> None\<close>
    using greedy_label_complete [OF pre] by simp
  then obtain t' where g: \<open>greedy_label ?r4 = Some t'\<close>
    by blast
  have \<open>edge_match s = Some (a, b, t')\<close>
    unfolding edge_match_def q1 using d1 d2 q2 d3 g by simp
  then show ?thesis by blast
qed

lemma edge_match_iff_shape:
  \<open>edge_match s \<noteq> None \<longleftrightarrow> (\<exists>a b t. edge_shape s a b t)\<close>
proof
  assume \<open>edge_match s \<noteq> None\<close>
  then obtain a b t where \<open>edge_match s = Some (a, b, t)\<close>
    by (cases \<open>edge_match s\<close>) auto
  then show \<open>\<exists>a b t. edge_shape s a b t\<close>
    using edge_match_sound by blast
next
  assume \<open>\<exists>a b t. edge_shape s a b t\<close>
  then show \<open>edge_match s \<noteq> None\<close>
    using edge_match_complete by fastforce
qed


lemma rstrip_no_trailing_space: \<open>rstrip s \<noteq> [] \<Longrightarrow> \<not> isspace (last (rstrip s))\<close>
proof -
  assume h: \<open>rstrip s \<noteq> []\<close>
  then have \<open>dropWhile isspace (rev s) \<noteq> []\<close>
    by (simp add: rstrip_def)
  then have \<open>\<not> isspace (hd (dropWhile isspace (rev s)))\<close>
    by (rule hd_dropWhile)
  then show ?thesis
    using h by (simp add: rstrip_def last_rev)
qed

lemma rstrip_id: \<open>s = [] \<or> \<not> isspace (last s) \<Longrightarrow> rstrip s = s\<close>
  by (cases s rule: rev_cases) (auto simp: rstrip_def)

lemma lstrip_id: \<open>s = [] \<or> \<not> isspace (hd s) \<Longrightarrow> lstrip s = s\<close>
  by (cases s) (auto simp: lstrip_def)

lemma strip_Nil: \<open>strip [] = []\<close>
  by (simp add: strip_def lstrip_def rstrip_def)

lemma strip_strip: \<open>strip (strip s) = strip s\<close>
proof (cases \<open>strip s = []\<close>)
  case True
  then show ?thesis by (simp add: strip_Nil)
next
  case False
  let ?u = \<open>rstrip s\<close>
  let ?v = \<open>dropWhile isspace ?u\<close>
  have v: \<open>strip s = ?v\<close> by (simp add: strip_def lstrip_def)
  with False have ne: \<open>?v \<noteq> []\<close> by simp
  then have u: \<open>?u \<noteq> []\<close> by auto
  have \<open>last ?v = last ?u\<close>
    using ne by (metis last_appendR takeWhile_dropWhile_id)
  then have l: \<open>\<not> isspace (last ?v)\<close>
    using rstrip_no_trailing_space [OF u] by simp
  have h: \<open>\<not> isspace (hd ?v)\<close>
    using ne by (rule hd_dropWhile)
  have \<open>rstrip ?v = ?v\<close> using l by (intro rstrip_id) simp
  moreover have \<open>lstrip ?v = ?v\<close> using h by (intro lstrip_id) simp
  ultimately show ?thesis unfolding v by (simp add: strip_def)
qed

lemma udf_parse_edges_loop_eq:
  \<open>udf_parse_edges_loop ls edges = edges @ List.map_filter mk_parsed_edge ls\<close>
proof (induction ls arbitrary: edges)
  case Nil
  show ?case by (simp add: List.map_filter_def)
next
  case (Cons l ls)
  show ?case
  proof (cases \<open>edge_match (strip l)\<close>)
    case None
    then show ?thesis using Cons by (simp add: mk_parsed_edge_def map_filter_Cons_None)
  next
    case (Some m)
    obtain src tgt ty where m: \<open>m = (src, tgt, ty)\<close> by (cases m)
    have \<open>mk_parsed_edge l = Some \<lparr>source = src, target = tgt, etype = ty, raw_line = strip l\<rparr>\<close>
      using Some m by (simp add: mk_parsed_edge_def)
    then show ?thesis using Some m Cons by (simp add: map_filter_Cons_Some Let_def strip_strip)
  qed
qed

lemma lines_of_join:
  \<open>\<forall>x \<in> set ls. newline \<notin> set x \<Longrightarrow> split_nl (join_nl ls) = (if ls = [] then [[]] else ls)\<close>
  by (simp add: split_join_nl)

lemma edge_match_Nil: \<open>edge_match [] = None\<close>
  by (simp add: edge_match_def quoted_id_def)

lemma map_filter_append:
  \<open>List.map_filter f (xs @ ys) = List.map_filter f xs @ List.map_filter f ys\<close>
  by (simp add: List.map_filter_def)

lemma map_filter_lines_skip:
  assumes \<open>f l = None\<close> \<open>f [] = None\<close> \<open>\<forall>x \<in> set (xs @ l # ys). newline \<notin> set x\<close>
  shows \<open>List.map_filter f (split_nl (join_nl (xs @ l # ys)))
           = List.map_filter f (split_nl (join_nl (xs @ ys)))\<close>
proof -
  have 1: \<open>split_nl (join_nl (xs @ l # ys)) = xs @ l # ys\<close>
    using assms(3) by (simp add: lines_of_join)
  have 2: \<open>split_nl (join_nl (xs @ ys)) = (if xs @ ys = [] then [[]] else xs @ ys)\<close>
    using assms(3) by (intro lines_of_join) auto
  show ?thesis
    unfolding 1 2 using assms(1,2) by (auto simp: map_filter_append map_filter_Cons_None List.map_filter_def)
qed

lemma udf_edges_loop_skip:
  \<open>edge_match (strip l) = None \<Longrightarrow> udf_edges_loop (xs @ l # ys) t = udf_edges_loop (xs @ ys) t\<close>
  by (induction xs arbitrary: t) (simp_all add: Let_def split: option.splits)

lemma udf_extract_edges_skip:
  assumes \<open>edge_match (strip l) = None\<close> \<open>\<forall>x \<in> set (xs @ l # ys). newline \<notin> set x\<close>
  shows \<open>udf_extract_edges_simple (join_nl (xs @ l # ys)) = udf_extract_edges_simple (join_nl (xs @ ys))\<close>
proof -
  have 1: \<open>split_nl (join_nl (xs @ l # ys)) = xs @ l # ys\<close>
    using assms(2) by (simp add: lines_of_join)
  have 2: \<open>split_nl (join_nl (xs @ ys)) = (if xs @ ys = [] then [[]] else xs @ ys)\<close>
    using assms(2) by (intro lines_of_join) auto
  have 3: \<open>udf_edges_loop [[]] t = udf_edges_loop [] t\<close> for t
    using udf_edges_loop_skip [of \<open>[]\<close> \<open>[]\<close> \<open>[]\<close> t] by (simp add: strip_Nil edge_match_Nil)
  show ?thesis
    unfolding udf_extract_edges_simple_def 1 2
    using udf_edges_loop_skip [OF assms(1), of xs ys] 3 by auto
qed


lemma mk_parsed_edge_None: \<open>edge_match (strip l) = None \<Longrightarrow> mk_parsed_edge l = None\<close>
  by (simp add: mk_parsed_edge_def)

lemma mk_parsed_edge_Nil: \<open>mk_parsed_edge [] = None\<close>
  by (simp add: mk_parsed_edge_def strip_Nil edge_match_Nil)


subsection \<open>The groups of the edge pattern\<close>

lemma label_here_iff: \<open>label_here r = Some t \<longleftrightarrow> label_shape r t\<close>
proof
  assume \<open>label_here r = Some t\<close>
  from label_here_SomeD [OF this] show \<open>label_shape r t\<close>
    unfolding label_shape_def .
next
  assume \<open>label_shape r t\<close>
  then obtain post rest where r: \<open>r = ''label='' @ [dquote] @ t @ [dquote] @ post @ ''];'' @ rest\<close>
    and t: \<open>t \<noteq> []\<close> \<open>dquote \<notin> set t\<close> \<open>newline \<notin> set post\<close>
    unfolding label_shape_def by blast
  show \<open>label_here r = Some t\<close>
    unfolding r using t by (rule label_here_SomeI)
qed

lemma label_shape_unique: \<open>label_shape r t \<Longrightarrow> label_shape r t' \<Longrightarrow> t = t'\<close>
  using label_here_iff [of r t] label_here_iff [of r t'] by simp

lemma greedy_label_None_no_label:
  assumes \<open>greedy_label r = None\<close> \<open>r = pre @ r'\<close> \<open>newline \<notin> set pre\<close>
  shows \<open>\<not> label_shape r' t\<close>
proof
  assume \<open>label_shape r' t\<close>
  then have \<open>label_here r' \<noteq> None\<close>
    using label_here_iff [of r' t] by simp
  from greedy_label_complete [OF assms(3) this] show False
    using assms(1,2) by simp
qed

lemma last_label_front:
  assumes \<open>\<And>pre2 r2 t2. r = pre2 @ r2 \<Longrightarrow> newline \<notin> set pre2 \<Longrightarrow> label_shape r2 t2 \<Longrightarrow> pre2 = []\<close>
  shows \<open>last_label r t \<longleftrightarrow> label_shape r t\<close>
proof
  assume \<open>last_label r t\<close>
  then obtain pre r' where h: \<open>r = pre @ r'\<close> \<open>newline \<notin> set pre\<close> \<open>label_shape r' t\<close>
    unfolding last_label_def by blast
  from assms [OF h] have \<open>pre = []\<close> .
  with h show \<open>label_shape r t\<close> by simp
next
  assume l: \<open>label_shape r t\<close>
  have \<open>r = [] @ r \<and> newline \<notin> set [] \<and> label_shape r t
        \<and> (\<forall>pre2 r2 t2. r = pre2 @ r2 \<and> newline \<notin> set pre2 \<and> label_shape r2 t2
              \<longrightarrow> length pre2 \<le> length ([] :: string))\<close>
    using l assms by auto
  then show \<open>last_label r t\<close>
    unfolding last_label_def by blast
qed

lemma greedy_label_iff: \<open>greedy_label r = Some t \<longleftrightarrow> last_label r t\<close>
proof (induction r arbitrary: t)
  case Nil
  have \<open>last_label [] t \<longleftrightarrow> label_shape [] t\<close>
    by (rule last_label_front) simp
  then show ?case by (simp add: label_here_iff)
next
  case (Cons c cs)
  show ?case
  proof (cases \<open>c \<noteq> newline \<and> greedy_label cs \<noteq> None\<close>)
    case False
    have front: \<open>pre2 = []\<close>
      if h: \<open>c # cs = pre2 @ r2\<close> \<open>newline \<notin> set pre2\<close> \<open>label_shape r2 t2\<close> for pre2 r2 t2
    proof (rule ccontr)
      assume \<open>pre2 \<noteq> []\<close>
      then obtain p where p: \<open>pre2 = c # p\<close> \<open>cs = p @ r2\<close>
        using h(1) by (cases pre2) auto
      with h(2) have c: \<open>c \<noteq> newline\<close> \<open>newline \<notin> set p\<close> by auto
      with False have \<open>greedy_label cs = None\<close> by simp
      from greedy_label_None_no_label [OF this p(2) c(2)] h(3) show False by simp
    qed
    have \<open>last_label (c # cs) t \<longleftrightarrow> label_shape (c # cs) t\<close>
      using front by (rule last_label_front)
    moreover have \<open>greedy_label (c # cs) = label_here (c # cs)\<close>
      using False by (auto split: option.splits)
    ultimately show ?thesis by (simp add: label_here_iff)
  next
    case True
    then obtain t0 where g: \<open>greedy_label cs = Some t0\<close> and c: \<open>c \<noteq> newline\<close> by auto
    then have gc: \<open>greedy_label (c # cs) = Some t0\<close> by simp
    from g Cons.IH [of t0] have \<open>last_label cs t0\<close> by simp
    then obtain pre0 r0 where h0: \<open>cs = pre0 @ r0\<close> \<open>newline \<notin> set pre0\<close> \<open>label_shape r0 t0\<close>
      and mx: \<open>\<And>pre2 r2 t2. cs = pre2 @ r2 \<Longrightarrow> newline \<notin> set pre2 \<Longrightarrow> label_shape r2 t2
                 \<Longrightarrow> length pre2 \<le> length pre0\<close>
      unfolding last_label_def by blast
    have cand: \<open>c # cs = (c # pre0) @ r0\<close> \<open>newline \<notin> set (c # pre0)\<close>
      using h0 c by auto
    have mx': \<open>length pre2 \<le> length (c # pre0)\<close>
      if h: \<open>c # cs = pre2 @ r2\<close> \<open>newline \<notin> set pre2\<close> \<open>label_shape r2 t2\<close> for pre2 r2 t2
    proof (cases pre2)
      case Nil
      then show ?thesis by simp
    next
      case (Cons d p)
      with h(1,2) have \<open>cs = p @ r2\<close> \<open>newline \<notin> set p\<close> by auto
      from mx [OF this h(3)] show ?thesis using Cons by simp
    qed
    have l0: \<open>last_label (c # cs) t0\<close>
      unfolding last_label_def using cand h0(3) mx' by blast
    have \<open>t = t0\<close> if \<open>last_label (c # cs) t\<close>
    proof -
      from that obtain pre r' where h: \<open>c # cs = pre @ r'\<close> \<open>newline \<notin> set pre\<close> \<open>label_shape r' t\<close>
        and mxt: \<open>\<And>pre2 r2 t2. c # cs = pre2 @ r2 \<Longrightarrow> newline \<notin> set pre2 \<Longrightarrow> label_shape r2 t2
                 \<Longrightarrow> length pre2 \<le> length pre\<close>
        unfolding last_label_def by blast
      have \<open>length (c # pre0) \<le> length pre\<close>
        using mxt [OF cand h0(3)] .
      moreover have \<open>length pre \<le> length (c # pre0)\<close>
        using mx' [OF h] .
      ultimately have \<open>length pre = length (c # pre0)\<close> by simp
      with h(1) cand(1) have \<open>pre = c # pre0 \<and> r' = r0\<close>
        by (metis append_eq_append_conv)
      with h(3) h0(3) show ?thesis
        using label_shape_unique by blast
    qed
    with l0 gc show ?thesis by auto
  qed
qed

lemma last_label_unique: \<open>last_label r t \<Longrightarrow> last_label r t' \<Longrightarrow> t = t'\<close>
  using greedy_label_iff [of r t] greedy_label_iff [of r t'] by simp

lemma edge_groups_shape: \<open>edge_groups s a b t \<Longrightarrow> edge_shape s a b t\<close>
proof -
  assume \<open>edge_groups s a b t\<close>
  then obtain ws1 ws2 ws3 r where
    s: \<open>s = [dquote] @ a @ [dquote] @ ws1 @ ''->'' @ ws2 @ [dquote] @ b @ [dquote] @ ws3 @ ''['' @ r\<close>
    and ab: \<open>a \<noteq> []\<close> \<open>dquote \<notin> set a\<close> \<open>b \<noteq> []\<close> \<open>dquote \<notin> set b\<close>
    and ws: \<open>list_all isspace (ws1 @ ws2 @ ws3)\<close>
    and l: \<open>last_label r t\<close>
    unfolding edge_groups_def by blast
  from l obtain pre r' where r: \<open>r = pre @ r'\<close> \<open>newline \<notin> set pre\<close> \<open>label_shape r' t\<close>
    unfolding last_label_def by blast
  from r(3) obtain post rest where
    r': \<open>r' = ''label='' @ [dquote] @ t @ [dquote] @ post @ ''];'' @ rest\<close>
    and t: \<open>t \<noteq> []\<close> \<open>dquote \<notin> set t\<close> \<open>newline \<notin> set post\<close>
    unfolding label_shape_def by blast
  have \<open>s = [dquote] @ a @ [dquote] @ ws1 @ ''->'' @ ws2 @ [dquote] @ b @ [dquote] @ ws3
            @ ''['' @ pre @ ''label='' @ [dquote] @ t @ [dquote] @ post @ ''];'' @ rest\<close>
    using s r(1) r' by simp
  then show ?thesis
    unfolding edge_shape_def using ab ws t r(2) by blast
qed

lemma edge_match_groups:
  assumes \<open>edge_match s = Some (a, b, t)\<close>
  shows \<open>edge_groups s a b t\<close>
proof -
  from assms obtain r1 where q1: \<open>quoted_id s = Some (a, r1)\<close>
    by (auto simp: edge_match_def Let_def split: option.splits if_splits list.splits)
  let ?r2 = \<open>dropWhile isspace r1\<close>
  from assms q1 have p: \<open>prefix ''->'' ?r2\<close>
    by (auto simp: edge_match_def Let_def split: option.splits if_splits list.splits)
  let ?r2' = \<open>dropWhile isspace (drop 2 ?r2)\<close>
  from assms q1 p obtain r3 where q2: \<open>quoted_id ?r2' = Some (b, r3)\<close>
    by (auto simp: edge_match_def Let_def split: option.splits if_splits list.splits)
  from assms q1 p q2 obtain r4 where br: \<open>dropWhile isspace r3 = CHR ''['' # r4\<close>
    and g: \<open>greedy_label r4 = Some t\<close>
    by (auto simp: edge_match_def Let_def split: option.splits if_splits list.splits)
  from quoted_id_SomeD [OF q1] have s: \<open>s = [dquote] @ a @ [dquote] @ r1\<close>
    and a: \<open>a \<noteq> []\<close> \<open>dquote \<notin> set a\<close> by simp_all
  obtain ws1 where w1: \<open>r1 = ws1 @ ?r2\<close> \<open>list_all isspace ws1\<close>
    using dropWhile_spaces_split [of r1] by blast
  from p have r2: \<open>?r2 = ''->'' @ drop 2 ?r2\<close>
    by (auto simp: prefix_def)
  obtain ws2 where w2: \<open>drop 2 ?r2 = ws2 @ ?r2'\<close> \<open>list_all isspace ws2\<close>
    using dropWhile_spaces_split [of \<open>drop 2 ?r2\<close>] by blast
  from quoted_id_SomeD [OF q2] have r2': \<open>?r2' = [dquote] @ b @ [dquote] @ r3\<close>
    and b: \<open>b \<noteq> []\<close> \<open>dquote \<notin> set b\<close> by simp_all
  obtain ws3 where w3: \<open>r3 = ws3 @ dropWhile isspace r3\<close> \<open>list_all isspace ws3\<close>
    using dropWhile_spaces_split [of r3] by blast
  have l: \<open>last_label r4 t\<close>
    using g by (simp add: greedy_label_iff)
  have \<open>r3 = ws3 @ ''['' @ r4\<close>
    using w3(1) br by simp
  then have \<open>?r2' = [dquote] @ b @ [dquote] @ ws3 @ ''['' @ r4\<close>
    using r2' by simp
  then have \<open>drop 2 ?r2 = ws2 @ [dquote] @ b @ [dquote] @ ws3 @ ''['' @ r4\<close>
    using w2(1) by simp
  then have \<open>?r2 = ''->'' @ ws2 @ [dquote] @ b @ [dquote] @ ws3 @ ''['' @ r4\<close>
    using r2 by simp
  then have \<open>r1 = ws1 @ ''->'' @ ws2 @ [dquote] @ b @ [dquote] @ ws3 @ ''['' @ r4\<close>
    using w1(1) by simp
  then have \<open>s = [dquote] @ a @ [dquote] @ ws1 @ ''->'' @ ws2 @ [dquote] @ b @ [dquote] @ ws3
            @ ''['' @ r4\<close>
    using s by simp
  moreover have \<open>list_all isspace (ws1 @ ws2 @ ws3)\<close>
    using w1(2) w2(2) w3(2) by simp
  ultimately show ?thesis
    unfolding edge_groups_def using a b l by blast
qed

lemma edge_groups_match:
  assumes \<open>edge_groups s a b t\<close>
  shows \<open>edge_match s = Some (a, b, t)\<close>
proof -
  from assms obtain ws1 ws2 ws3 r4 where
    s: \<open>s = [dquote] @ a @ [dquote] @ ws1 @ ''->'' @ ws2 @ [dquote] @ b @ [dquote] @ ws3
            @ ''['' @ r4\<close>
    and a: \<open>a \<noteq> []\<close> \<open>dquote \<notin> set a\<close> and b: \<open>b \<noteq> []\<close> \<open>dquote \<notin> set b\<close>
    and ws: \<open>list_all isspace ws1\<close> \<open>list_all isspace ws2\<close> \<open>list_all isspace ws3\<close>
    and l: \<open>last_label r4 t\<close>
    unfolding edge_groups_def by auto
  let ?r3 = \<open>ws3 @ CHR ''['' # r4\<close>
  let ?q2 = \<open>[dquote] @ b @ [dquote] @ ?r3\<close>
  let ?r1 = \<open>ws1 @ CHR ''-'' # CHR ''>'' # ws2 @ dquote # b @ [dquote] @ ?r3\<close>
  have s': \<open>s = [dquote] @ a @ [dquote] @ ?r1\<close>
    using s by simp
  have q1: \<open>quoted_id s = Some (a, ?r1)\<close>
    unfolding s' using a by (rule quoted_id_SomeI)
  have d1: \<open>dropWhile isspace ?r1 = CHR ''-'' # CHR ''>'' # ws2 @ dquote # b @ [dquote] @ ?r3\<close>
    using ws(1) not_isspace_minus by (rule dropWhile_spaces_skip)
  have d2: \<open>dropWhile isspace (ws2 @ dquote # b @ [dquote] @ ?r3) = dquote # b @ [dquote] @ ?r3\<close>
    using ws(2) not_isspace_dquote by (rule dropWhile_spaces_skip)
  have q2: \<open>quoted_id ?q2 = Some (b, ?r3)\<close>
    using b by (rule quoted_id_SomeI)
  have d3: \<open>dropWhile isspace ?r3 = CHR ''['' # r4\<close>
    using ws(3) not_isspace_bracket by (rule dropWhile_spaces_skip)
  have g: \<open>greedy_label r4 = Some t\<close>
    using l by (simp add: greedy_label_iff)
  show \<open>edge_match s = Some (a, b, t)\<close>
    unfolding edge_match_def q1 using d1 d2 q2 d3 g by simp
qed

lemma edge_match_iff_groups: \<open>edge_match s = Some (a, b, t) \<longleftrightarrow> edge_groups s a b t\<close>
  using edge_match_groups edge_groups_match by blast

lemma mk_parsed_edge_SomeD:
  \<open>mk_parsed_edge l = Some e \<Longrightarrow>
     edge_groups (strip l) (source e) (target e) (etype e) \<and> raw_line e = strip l\<close>
  by (auto simp: mk_parsed_edge_def edge_match_iff_groups [symmetric] split: option.splits)

lemma mk_parsed_edge_SomeI:
  \<open>edge_groups (strip l) a b t \<Longrightarrow>
     mk_parsed_edge l = Some \<lparr>source = a, target = b, etype = t, raw_line = strip l\<rparr>\<close>
  by (simp add: mk_parsed_edge_def edge_match_iff_groups [symmetric])

lemma mk_parsed_edge_None_iff:
  \<open>mk_parsed_edge l = None \<longleftrightarrow> \<not> (\<exists>a b t. edge_groups (strip l) a b t)\<close>
  by (auto simp: mk_parsed_edge_def edge_match_iff_groups [symmetric] split: option.splits)

lemma parsed_edges_of_lines:
  \<open>list_all2 (\<lambda>e l. edge_groups (strip l) (source e) (target e) (etype e) \<and> raw_line e = strip l)
     (List.map_filter mk_parsed_edge ls)
     (filter (\<lambda>l. \<exists>a b t. edge_groups (strip l) a b t) ls)\<close>
proof (induction ls)
  case Nil
  show ?case by (simp add: List.map_filter_def)
next
  case (Cons l ls)
  show ?case
  proof (cases \<open>mk_parsed_edge l\<close>)
    case None
    then show ?thesis
      using Cons mk_parsed_edge_None_iff [of l] by (auto simp: map_filter_Cons_None)
  next
    case (Some e)
    from mk_parsed_edge_SomeD [OF Some]
    have g: \<open>edge_groups (strip l) (source e) (target e) (etype e)\<close> \<open>raw_line e = strip l\<close>
      by simp_all
    then have \<open>\<exists>a b t. edge_groups (strip l) a b t\<close> by blast
    then show ?thesis
      using Cons Some g by (simp add: map_filter_Cons_Some)
  qed
qed

lemma kept_lines_of_lines:
  \<open>map raw_line (filter (\<lambda>e. etype e \<in> S) (List.map_filter mk_parsed_edge ls))
     = map strip (filter (\<lambda>l. \<exists>a b t. edge_groups (strip l) a b t \<and> t \<in> S) ls)\<close>
proof (induction ls)
  case Nil
  show ?case by (simp add: List.map_filter_def)
next
  case (Cons l ls)
  show ?case
  proof (cases \<open>mk_parsed_edge l\<close>)
    case None
    then have \<open>\<not> (\<exists>a b t. edge_groups (strip l) a b t \<and> t \<in> S)\<close>
      using mk_parsed_edge_None_iff [of l] by blast
    then show ?thesis
      using Cons None by (simp add: map_filter_Cons_None)
  next
    case (Some e)
    from mk_parsed_edge_SomeD [OF Some]
    have g: \<open>edge_groups (strip l) (source e) (target e) (etype e)\<close> \<open>raw_line e = strip l\<close>
      by simp_all
    have \<open>(\<exists>a b t. edge_groups (strip l) a b t \<and> t \<in> S) \<longleftrightarrow> etype e \<in> S\<close>
    proof
      assume \<open>\<exists>a b t. edge_groups (strip l) a b t \<and> t \<in> S\<close>
      then obtain a b t where h: \<open>edge_groups (strip l) a b t\<close> \<open>t \<in> S\<close> by blast
      from h(1) g(1) have \<open>t = etype e\<close>
        by (simp add: edge_match_iff_groups [symmetric])
      with h(2) show \<open>etype e \<in> S\<close> by simp
    next
      assume \<open>etype e \<in> S\<close>
      with g(1) show \<open>\<exists>a b t. edge_groups (strip l) a b t \<and> t \<in> S\<close> by blast
    qed
    then show ?thesis
      using Cons Some g(2) by (simp add: map_filter_Cons_Some)
  qed
qed

lemma connected_of_lines:
  \<open>(\<Union>e \<in> set (filter (\<lambda>e. etype e \<in> S) (List.map_filter mk_parsed_edge ls)). {source e, target e})
     = {x. \<exists>l \<in> set ls. \<exists>a b t. edge_groups (strip l) a b t \<and> t \<in> S \<and> (x = a \<or> x = b)}\<close>
  (is \<open>?L = ?R\<close>)
proof (intro set_eqI iffI)
  fix x
  assume \<open>x \<in> ?L\<close>
  then obtain e l where e: \<open>l \<in> set ls\<close> \<open>mk_parsed_edge l = Some e\<close> \<open>etype e \<in> S\<close>
    \<open>x = source e \<or> x = target e\<close>
    by (auto simp: map_filter_set)
  from mk_parsed_edge_SomeD [OF e(2)] e(1,3,4) show \<open>x \<in> ?R\<close> by blast
next
  fix x
  assume \<open>x \<in> ?R\<close>
  then obtain l a b t where h: \<open>l \<in> set ls\<close> \<open>edge_groups (strip l) a b t\<close> \<open>t \<in> S\<close>
    \<open>x = a \<or> x = b\<close> by blast
  let ?e = \<open>\<lparr>source = a, target = b, etype = t, raw_line = strip l\<rparr>\<close>
  from mk_parsed_edge_SomeI [OF h(2)] h(1) have \<open>?e \<in> set (List.map_filter mk_parsed_edge ls)\<close>
    by (auto simp: map_filter_set)
  with h(3) have \<open>?e \<in> set (filter (\<lambda>e. etype e \<in> S) (List.map_filter mk_parsed_edge ls))\<close>
    by simp
  moreover have \<open>x \<in> {source ?e, target ?e}\<close> using h(4) by auto
  ultimately show \<open>x \<in> ?L\<close> by blast
qed

subsection \<open>The edges the extractor keeps\<close>





subsection \<open>What the edge passes do with a line\<close>





subsection \<open>The node output of the subgraph extractor\<close>

lemma node_match_iff: \<open>node_match s = Some node_id \<longleftrightarrow> node_shape s node_id\<close>
proof
  assume h: \<open>node_match s = Some node_id\<close>
  then obtain r where q: \<open>quoted_id s = Some (node_id, r)\<close>
    by (auto simp: node_match_def split: option.splits list.splits if_splits)
  with h obtain r' where d: \<open>dropWhile isspace r = CHR ''['' # r'\<close>
    by (auto simp: node_match_def split: option.splits list.splits if_splits)
  from quoted_id_SomeD [OF q] have s: \<open>s = [dquote] @ node_id @ [dquote] @ r\<close>
    and i: \<open>node_id \<noteq> []\<close> \<open>dquote \<notin> set node_id\<close> by simp_all
  obtain ws where w: \<open>r = ws @ dropWhile isspace r\<close> \<open>list_all isspace ws\<close>
    using dropWhile_spaces_split [of r] by blast
  have \<open>s = [dquote] @ node_id @ [dquote] @ ws @ ''['' @ r'\<close>
    using s w(1) d by simp
  with i w(2) show \<open>node_shape s node_id\<close>
    unfolding node_shape_def by blast
next
  assume \<open>node_shape s node_id\<close>
  then obtain ws r where s: \<open>s = [dquote] @ node_id @ [dquote] @ (ws @ CHR ''['' # r)\<close>
    and i: \<open>node_id \<noteq> []\<close> \<open>dquote \<notin> set node_id\<close> and w: \<open>list_all isspace ws\<close>
    unfolding node_shape_def by auto
  have q: \<open>quoted_id s = Some (node_id, ws @ CHR ''['' # r)\<close>
    unfolding s using i by (rule quoted_id_SomeI)
  have d: \<open>dropWhile isspace (ws @ CHR ''['' # r) = CHR ''['' # r\<close>
    using w not_isspace_bracket by (rule dropWhile_spaces_skip)
  show \<open>node_match s = Some node_id\<close>
    by (simp add: node_match_def q d)
qed

lemma wanted_start_iff:
  \<open>wanted_start node_ids l \<longleftrightarrow> (\<exists>node_id. node_match (strip l) = Some node_id \<and> node_id \<in> node_ids)\<close>
  by (auto simp: wanted_start_def node_match_iff)

lemma subgraph_nodes_loop_unwanted:
  \<open>\<not> wanted_start node_ids l \<Longrightarrow>
     subgraph_nodes_loop node_ids (l # ls) (acc, found) = subgraph_nodes_loop node_ids ls (acc, found)\<close>
  by (auto simp: wanted_start_iff Let_def split: option.splits)

lemma subgraph_nodes_loop_gap:
  \<open>\<forall>l \<in> set gap. \<not> wanted_start node_ids l \<Longrightarrow>
     subgraph_nodes_loop node_ids (gap @ ls) (acc, found) = subgraph_nodes_loop node_ids ls (acc, found)\<close>
  by (induction gap) (simp_all add: subgraph_nodes_loop_unwanted del: subgraph_nodes_loop.simps)

lemma udf_nodes_loop_unwanted:
  \<open>\<not> wanted_start node_ids l \<Longrightarrow>
     udf_nodes_loop node_ids (l # ls) acc = udf_nodes_loop node_ids ls acc\<close>
  by (auto simp: wanted_start_iff Let_def split: option.splits)

lemma udf_nodes_loop_gap:
  \<open>\<forall>l \<in> set gap. \<not> wanted_start node_ids l \<Longrightarrow>
     udf_nodes_loop node_ids (gap @ ls) acc = udf_nodes_loop node_ids ls acc\<close>
  by (induction gap) (simp_all add: udf_nodes_loop_unwanted del: udf_nodes_loop.simps)

lemma collect_block_closed:
  \<open>\<forall>l \<in> set body. \<not> ends_block (rstrip l) \<Longrightarrow> ends_block (rstrip final) \<Longrightarrow>
     collect_block (body @ final # post) = (body @ [final], post)\<close>
  by (induction body) (simp_all add: ends_block_def)

lemma collect_block_unclosed:
  \<open>\<forall>l \<in> set body. \<not> ends_block (rstrip l) \<Longrightarrow> collect_block body = (body, [])\<close>
  by (induction body) (simp_all add: ends_block_def)

lemma subgraph_nodes_loop_one_line:
  assumes \<open>node_match (strip first) = Some node_id\<close> \<open>node_id \<in> node_ids\<close> \<open>ends_block (strip first)\<close>
  shows \<open>subgraph_nodes_loop node_ids (first # post) (acc, found)
           = subgraph_nodes_loop node_ids post (acc @ [first], insert node_id found)\<close>
  using assms by (simp add: ends_block_def)

lemma subgraph_nodes_loop_multi:
  assumes \<open>node_match (strip first) = Some node_id\<close> \<open>node_id \<in> node_ids\<close>
    \<open>\<not> ends_block (strip first)\<close> \<open>collect_block ls = (blk, rest)\<close>
  shows \<open>subgraph_nodes_loop node_ids (first # ls) (acc, found)
           = subgraph_nodes_loop node_ids rest (acc @ [join_nl (first # blk)], insert node_id found)\<close>
  using assms by (simp add: ends_block_def)

lemma udf_nodes_loop_one_line:
  assumes \<open>node_match (strip first) = Some node_id\<close> \<open>node_id \<in> node_ids\<close> \<open>ends_block (strip first)\<close>
  shows \<open>udf_nodes_loop node_ids (first # post) acc
           = udf_nodes_loop node_ids post (AList.update node_id first acc)\<close>
  using assms by (simp add: ends_block_def)

lemma udf_nodes_loop_multi:
  assumes \<open>node_match (strip first) = Some node_id\<close> \<open>node_id \<in> node_ids\<close>
    \<open>\<not> ends_block (strip first)\<close> \<open>collect_block ls = (blk, rest)\<close>
  shows \<open>udf_nodes_loop node_ids (first # ls) acc
           = udf_nodes_loop node_ids rest (AList.update node_id (join_nl (first # blk)) acc)\<close>
  using assms by (simp add: ends_block_def)

lemma node_blocks_subgraph_loop:
  \<open>node_blocks node_ids ls bs \<Longrightarrow>
     subgraph_nodes_loop node_ids ls (acc, found)
       = (acc @ map join_nl bs, found \<union> {node_id. \<exists>b \<in> set bs. block_id b = Some node_id})\<close>
proof (induction arbitrary: acc found rule: node_blocks.induct)
  case (no_more gap)
  have \<open>subgraph_nodes_loop node_ids (gap @ []) (acc, found) = subgraph_nodes_loop node_ids [] (acc, found)\<close>
    using no_more by (rule subgraph_nodes_loop_gap)
  then show ?case by simp
next
  case (one_line gap first post bs)
  from one_line(2) obtain node_id where m: \<open>node_match (strip first) = Some node_id\<close>
    \<open>node_id \<in> node_ids\<close> by (auto simp: wanted_start_iff)
  have \<open>subgraph_nodes_loop node_ids (gap @ first # post) (acc, found)
          = subgraph_nodes_loop node_ids (first # post) (acc, found)\<close>
    using one_line(1) by (rule subgraph_nodes_loop_gap)
  also have \<open>\<dots> = subgraph_nodes_loop node_ids post (acc @ [first], insert node_id found)\<close>
    using m one_line(3) by (rule subgraph_nodes_loop_one_line)
  also have \<open>\<dots> = ((acc @ [first]) @ map join_nl bs,
      insert node_id found \<union> {node_id. \<exists>b \<in> set bs. block_id b = Some node_id})\<close>
    by (rule one_line.IH)
  also have \<open>\<dots> = (acc @ map join_nl ([first] # bs),
      found \<union> {node_id. \<exists>b \<in> set ([first] # bs). block_id b = Some node_id})\<close>
    using m(1) by (auto simp: block_id_def)
  finally show ?case .
next
  case (closed gap first body final post bs)
  from closed(2) obtain node_id where m: \<open>node_match (strip first) = Some node_id\<close>
    \<open>node_id \<in> node_ids\<close> by (auto simp: wanted_start_iff)
  have cb: \<open>collect_block (body @ final # post) = (body @ [final], post)\<close>
    using closed(4,5) by (rule collect_block_closed)
  have \<open>subgraph_nodes_loop node_ids (gap @ first # body @ final # post) (acc, found)
          = subgraph_nodes_loop node_ids (first # body @ final # post) (acc, found)\<close>
    using closed(1) by (rule subgraph_nodes_loop_gap)
  also have \<open>\<dots> = subgraph_nodes_loop node_ids post
      (acc @ [join_nl (first # body @ [final])], insert node_id found)\<close>
    using m closed(3) cb by (rule subgraph_nodes_loop_multi)
  also have \<open>\<dots> = ((acc @ [join_nl (first # body @ [final])]) @ map join_nl bs,
      insert node_id found \<union> {node_id. \<exists>b \<in> set bs. block_id b = Some node_id})\<close>
    by (rule closed.IH)
  also have \<open>\<dots> = (acc @ map join_nl ((first # body @ [final]) # bs),
      found \<union> {node_id. \<exists>b \<in> set ((first # body @ [final]) # bs). block_id b = Some node_id})\<close>
    using m(1) by (auto simp: block_id_def)
  finally show ?case .
next
  case (unclosed gap first body)
  from unclosed(2) obtain node_id where m: \<open>node_match (strip first) = Some node_id\<close>
    \<open>node_id \<in> node_ids\<close> by (auto simp: wanted_start_iff)
  have cb: \<open>collect_block body = (body, [])\<close>
    using unclosed(4) by (rule collect_block_unclosed)
  have \<open>subgraph_nodes_loop node_ids (gap @ first # body) (acc, found)
          = subgraph_nodes_loop node_ids (first # body) (acc, found)\<close>
    using unclosed(1) by (rule subgraph_nodes_loop_gap)
  also have \<open>\<dots> = subgraph_nodes_loop node_ids []
      (acc @ [join_nl (first # body)], insert node_id found)\<close>
    using m unclosed(3) cb by (rule subgraph_nodes_loop_multi)
  also have \<open>\<dots> = (acc @ map join_nl [first # body],
      found \<union> {node_id. \<exists>b \<in> set [first # body]. block_id b = Some node_id})\<close>
    using m(1) by (auto simp: block_id_def)
  finally show ?case .
qed

lemma node_blocks_udf_loop:
  \<open>node_blocks node_ids ls bs \<Longrightarrow>
     udf_nodes_loop node_ids ls acc
       = fold (\<lambda>b. AList.update (the (block_id b)) (join_nl b)) bs acc\<close>
proof (induction arbitrary: acc rule: node_blocks.induct)
  case (no_more gap)
  have \<open>udf_nodes_loop node_ids (gap @ []) acc = udf_nodes_loop node_ids [] acc\<close>
    using no_more by (rule udf_nodes_loop_gap)
  then show ?case by simp
next
  case (one_line gap first post bs)
  from one_line(2) obtain node_id where m: \<open>node_match (strip first) = Some node_id\<close>
    \<open>node_id \<in> node_ids\<close> by (auto simp: wanted_start_iff)
  have \<open>udf_nodes_loop node_ids (gap @ first # post) acc = udf_nodes_loop node_ids (first # post) acc\<close>
    using one_line(1) by (rule udf_nodes_loop_gap)
  also have \<open>\<dots> = udf_nodes_loop node_ids post (AList.update node_id first acc)\<close>
    using m one_line(3) by (rule udf_nodes_loop_one_line)
  also have \<open>\<dots> = fold (\<lambda>b. AList.update (the (block_id b)) (join_nl b)) bs
      (AList.update node_id first acc)\<close>
    by (rule one_line.IH)
  also have \<open>\<dots> = fold (\<lambda>b. AList.update (the (block_id b)) (join_nl b)) ([first] # bs) acc\<close>
    using m(1) by (simp add: block_id_def)
  finally show ?case .
next
  case (closed gap first body final post bs)
  from closed(2) obtain node_id where m: \<open>node_match (strip first) = Some node_id\<close>
    \<open>node_id \<in> node_ids\<close> by (auto simp: wanted_start_iff)
  have cb: \<open>collect_block (body @ final # post) = (body @ [final], post)\<close>
    using closed(4,5) by (rule collect_block_closed)
  have \<open>udf_nodes_loop node_ids (gap @ first # body @ final # post) acc
          = udf_nodes_loop node_ids (first # body @ final # post) acc\<close>
    using closed(1) by (rule udf_nodes_loop_gap)
  also have \<open>\<dots> = udf_nodes_loop node_ids post
      (AList.update node_id (join_nl (first # body @ [final])) acc)\<close>
    using m closed(3) cb by (rule udf_nodes_loop_multi)
  also have \<open>\<dots> = fold (\<lambda>b. AList.update (the (block_id b)) (join_nl b)) bs
      (AList.update node_id (join_nl (first # body @ [final])) acc)\<close>
    by (rule closed.IH)
  also have \<open>\<dots> = fold (\<lambda>b. AList.update (the (block_id b)) (join_nl b))
      ((first # body @ [final]) # bs) acc\<close>
    using m(1) by (simp add: block_id_def)
  finally show ?case .
next
  case (unclosed gap first body)
  from unclosed(2) obtain node_id where m: \<open>node_match (strip first) = Some node_id\<close>
    \<open>node_id \<in> node_ids\<close> by (auto simp: wanted_start_iff)
  have cb: \<open>collect_block body = (body, [])\<close>
    using unclosed(4) by (rule collect_block_unclosed)
  have \<open>udf_nodes_loop node_ids (gap @ first # body) acc = udf_nodes_loop node_ids (first # body) acc\<close>
    using unclosed(1) by (rule udf_nodes_loop_gap)
  also have \<open>\<dots> = udf_nodes_loop node_ids [] (AList.update node_id (join_nl (first # body)) acc)\<close>
    using m unclosed(3) cb by (rule udf_nodes_loop_multi)
  also have \<open>\<dots> = fold (\<lambda>b. AList.update (the (block_id b)) (join_nl b)) [first # body] acc\<close>
    using m(1) by (simp add: block_id_def)
  finally show ?case .
qed

lemma node_blocks_exist: \<open>\<exists>bs. node_blocks node_ids ls bs\<close>
proof (induction \<open>length ls\<close> arbitrary: ls rule: less_induct)
  case less
  show ?case
  proof (cases \<open>\<exists>l \<in> set ls. wanted_start node_ids l\<close>)
    case False
    then have \<open>node_blocks node_ids ls []\<close>
      by (intro node_blocks.no_more) simp
    then show ?thesis by blast
  next
    case True
    from split_list_first_prop [OF True] obtain gap first r where
      ls: \<open>ls = gap @ first # r\<close> and w: \<open>wanted_start node_ids first\<close>
      and g: \<open>\<forall>l \<in> set gap. \<not> wanted_start node_ids l\<close> by blast
    show ?thesis
    proof (cases \<open>ends_block (strip first)\<close>)
      case True
      from less [of r] ls obtain bs where \<open>node_blocks node_ids r bs\<close> by auto
      from node_blocks.one_line [OF g w True this] show ?thesis
        unfolding ls by blast
    next
      case False
      show ?thesis
      proof (cases \<open>\<exists>l \<in> set r. ends_block (rstrip l)\<close>)
        case True
        from split_list_first_prop [OF True] obtain body final post where
          r: \<open>r = body @ final # post\<close> and e: \<open>ends_block (rstrip final)\<close>
          and b: \<open>\<forall>l \<in> set body. \<not> ends_block (rstrip l)\<close> by blast
        from less [of post] ls r obtain bs where \<open>node_blocks node_ids post bs\<close> by auto
        from node_blocks.closed [OF g w False b e this] show ?thesis
          unfolding ls r by blast
      next
        case none: False
        then have \<open>\<forall>l \<in> set r. \<not> ends_block (rstrip l)\<close> by simp
        from node_blocks.unclosed [OF g w False this] show ?thesis
          unfolding ls by blast
      qed
    qed
  qed
qed

lemma node_blocks_sub:
  \<open>node_blocks node_ids ls bs \<Longrightarrow> b \<in> set bs \<Longrightarrow> b \<noteq> [] \<and> set b \<subseteq> set ls\<close>
  by (induction rule: node_blocks.induct) auto

lemma node_blocks_split_join:
  assumes \<open>node_blocks node_ids (split_nl c) bs\<close>
  shows \<open>map split_nl (map join_nl bs) = bs\<close>
proof -
  have \<open>split_nl (join_nl b) = b\<close> if \<open>b \<in> set bs\<close> for b
  proof -
    from node_blocks_sub [OF assms that] have \<open>b \<noteq> []\<close> \<open>set b \<subseteq> set (split_nl c)\<close>
      by simp_all
    then show ?thesis
      using split_nl_no_newline [of _ c] by (intro split_join_nl) auto
  qed
  then show ?thesis by (simp add: map_idI)
qed

lemma extract_nodes_blocks:
  \<open>node_blocks node_ids (split_nl c) bs
     \<longleftrightarrow> bs = map split_nl (fst (subgraph_extract_nodes_simple c node_ids))\<close>
proof -
  have fwd: \<open>bs' = map split_nl (fst (subgraph_extract_nodes_simple c node_ids))\<close>
    if h: \<open>node_blocks node_ids (split_nl c) bs'\<close> for bs'
  proof -
    have \<open>fst (subgraph_extract_nodes_simple c node_ids) = map join_nl bs'\<close>
      by (simp add: subgraph_extract_nodes_simple_def node_blocks_subgraph_loop [OF h])
    then show ?thesis using node_blocks_split_join [OF h] by simp
  qed
  obtain bs0 where b0: \<open>node_blocks node_ids (split_nl c) bs0\<close>
    using node_blocks_exist by blast
  show ?thesis
    using fwd [OF b0] b0 fwd by blast
qed

lemma extract_nodes_found:
  \<open>snd (subgraph_extract_nodes_simple c node_ids)
     = {node_id. \<exists>b \<in> set (map split_nl (fst (subgraph_extract_nodes_simple c node_ids))).
          block_id b = Some node_id}\<close>
proof -
  obtain bs where b: \<open>node_blocks node_ids (split_nl c) bs\<close>
    using node_blocks_exist by blast
  have \<open>bs = map split_nl (fst (subgraph_extract_nodes_simple c node_ids))\<close>
    using b by (simp add: extract_nodes_blocks)
  moreover have \<open>snd (subgraph_extract_nodes_simple c node_ids)
      = {node_id. \<exists>b \<in> set bs. block_id b = Some node_id}\<close>
    by (simp add: subgraph_extract_nodes_simple_def node_blocks_subgraph_loop [OF b])
  ultimately show ?thesis by simp
qed

lemma udf_extract_nodes_blocks:
  \<open>udf_extract_nodes_simple c node_ids
     = fold (\<lambda>b. AList.update (the (block_id b)) (join_nl b))
         (map split_nl (fst (subgraph_extract_nodes_simple c node_ids))) []\<close>
proof -
  obtain bs where b: \<open>node_blocks node_ids (split_nl c) bs\<close>
    using node_blocks_exist by blast
  have \<open>bs = map split_nl (fst (subgraph_extract_nodes_simple c node_ids))\<close>
    using b by (simp add: extract_nodes_blocks)
  then show ?thesis
    using node_blocks_udf_loop [OF b] by (simp add: udf_extract_nodes_simple_def)
qed


text \<open>
  Claim C6, as the code has it. In the extractor's output the node texts are written in
  the order in which they start in the input (there is no sorting by id). The texts are
  the blocks \<^const>\<open>node_blocks\<close> of the input lines for the connected node ids, and no
  others: a text starts at a line that starts a wanted declaration; it is that line alone
  when the stripped line ends with a double quote, a closing bracket and a semicolon, and
  otherwise it runs on through the first later line that, stripped on the right, ends so
  (to the last line when there is none). Each text is the lines of its block joined by
  line feeds and is written byte for byte after two blanks put before its first line only,
  the later lines being written as they are. The found node ids, which the header counts,
  are the ids with which the blocks start.
\<close>

theorem extractor_node_output:
  \<open>(let kept_lines = fst (subgraph_extract_edges_simple dot_content (set edge_types));
        connected_nodes = snd (subgraph_extract_edges_simple dot_content (set edge_types));
        node_lines = fst (subgraph_extract_nodes_simple dot_content connected_nodes);
        found_nodes = snd (subgraph_extract_nodes_simple dot_content connected_nodes)
    in
      create_simple_subgraph dot_content edge_types =
        ''digraph subgraph_'' @ join_sep ''_'' edge_types @ '' {'' @ [newline]
        @ ''  // Direct extraction from original DOT file'' @ [newline]
        @ ''  // Edge types: '' @ join_sep '', '' edge_types @ [newline]
        @ ''  // Nodes: '' @ str_nat (card found_nodes)
        @ '', Edges: '' @ str_nat (length kept_lines) @ [newline, newline]
        @ ''  // Node definitions'' @ [newline]
        @ concat (map (\<lambda>node_def. ''  '' @ node_def @ [newline]) node_lines)
        @ [newline] @ ''  // Edge definitions'' @ [newline]
        @ concat (map (\<lambda>line. ''  '' @ line @ [newline]) kept_lines)
        @ ''}'' @ [newline]
      \<and> (node_blocks connected_nodes (split_nl dot_content) bs
           \<longleftrightarrow> bs = map split_nl node_lines)
      \<and> map join_nl (map split_nl node_lines) = node_lines
      \<and> found_nodes = {node_id. \<exists>b \<in> set (map split_nl node_lines). block_id b = Some node_id})
   \<and> write_node_def node_def = ''  '' @ node_def @ [newline]
   \<and> (node_match s = Some node_id \<longleftrightarrow> node_shape s node_id)\<close>
proof -
  let ?cn = \<open>snd (subgraph_extract_edges_simple dot_content (set edge_types))\<close>
  let ?nl = \<open>fst (subgraph_extract_nodes_simple dot_content ?cn)\<close>
  have 1: \<open>(\<lambda>d. write_node_def d) = (\<lambda>d. ''  '' @ d @ [newline])\<close>
    by (rule ext) (rule write_node_def_eq)
  have a: \<open>create_simple_subgraph dot_content edge_types =
        ''digraph subgraph_'' @ join_sep ''_'' edge_types @ '' {'' @ [newline]
        @ ''  // Direct extraction from original DOT file'' @ [newline]
        @ ''  // Edge types: '' @ join_sep '', '' edge_types @ [newline]
        @ ''  // Nodes: '' @ str_nat (card (snd (subgraph_extract_nodes_simple dot_content ?cn)))
        @ '', Edges: ''
        @ str_nat (length (fst (subgraph_extract_edges_simple dot_content (set edge_types))))
        @ [newline, newline]
        @ ''  // Node definitions'' @ [newline]
        @ concat (map (\<lambda>node_def. ''  '' @ node_def @ [newline]) ?nl)
        @ [newline] @ ''  // Edge definitions'' @ [newline]
        @ concat (map (\<lambda>line. ''  '' @ line @ [newline])
            (fst (subgraph_extract_edges_simple dot_content (set edge_types))))
        @ ''}'' @ [newline]\<close>
    unfolding create_simple_subgraph_def by (simp add: split_beta 1)
  have b: \<open>node_blocks ?cn (split_nl dot_content) bs \<longleftrightarrow> bs = map split_nl ?nl\<close>
    by (rule extract_nodes_blocks)
  have c: \<open>map join_nl (map split_nl ?nl) = ?nl\<close>
    by (simp add: join_split_nl map_idI)
  have d: \<open>snd (subgraph_extract_nodes_simple dot_content ?cn)
      = {node_id. \<exists>b \<in> set (map split_nl ?nl). block_id b = Some node_id}\<close>
    by (rule extract_nodes_found)
  have e: \<open>write_node_def node_def = ''  '' @ node_def @ [newline]\<close>
    by (rule write_node_def_eq)
  have f: \<open>node_match s = Some node_id \<longleftrightarrow> node_shape s node_id\<close>
    by (rule node_match_iff)
  show ?thesis
    unfolding Let_def using a b c d e f by (intro conjI)
qed

theorem extractor_node_output_witness:
  \<open>node_blocks {''1'', ''2''}
      [''digraph g {'', ''"1" [label="A" CODE="x'', ''  y"];'', ''"3" [label="C"];'',
       ''"2" [label="B"];'', ''"1" -> "2" [label="CFG"];'', ''}'']
      [[''"1" [label="A" CODE="x'', ''  y"];''], [''"2" [label="B"];'']]
   \<and> create_simple_subgraph
        (join_nl [''digraph g {'', ''"1" [label="A" CODE="x'', ''  y"];'', ''"3" [label="C"];'',
                  ''"2" [label="B"];'', ''"1" -> "2" [label="CFG"];'', ''}''])
        [''CFG'']
      = join_nl
         [''digraph subgraph_CFG {'',
          ''  // Direct extraction from original DOT file'',
          ''  // Edge types: CFG'',
          ''  // Nodes: 2, Edges: 1'',
          [],
          ''  // Node definitions'',
          ''  "1" [label="A" CODE="x'',
          ''  y"];'',
          ''  "2" [label="B"];'',
          [],
          ''  // Edge definitions'',
          ''  "1" -> "2" [label="CFG"];'',
          ''}'',
          []]\<close>
proof -
  let ?ls = \<open>[''digraph g {'', ''"1" [label="A" CODE="x'', ''  y"];'', ''"3" [label="C"];'',
       ''"2" [label="B"];'', ''"1" -> "2" [label="CFG"];'', ''}'']\<close>
  let ?c = \<open>join_nl ?ls\<close>
  let ?bs = \<open>[[''"1" [label="A" CODE="x'', ''  y"];''], [''"2" [label="B"];'']]\<close>
  note th = extractor_node_output [of ?c \<open>[''CFG'']\<close> ?bs, unfolded Let_def, THEN conjunct1]
  have n: \<open>snd (subgraph_extract_edges_simple ?c (set [''CFG''])) = {''1'', ''2''}\<close>
    by code_simp
  have e: \<open>map split_nl (fst (subgraph_extract_nodes_simple ?c {''1'', ''2''})) = ?bs\<close>
    by code_simp
  have s: \<open>split_nl ?c = ?ls\<close>
    by code_simp
  have 1: \<open>node_blocks {''1'', ''2''} ?ls ?bs\<close>
    using th [THEN conjunct2, THEN conjunct1] unfolding n e s by simp
  have 2: \<open>create_simple_subgraph ?c [''CFG'']
      = join_nl
         [''digraph subgraph_CFG {'',
          ''  // Direct extraction from original DOT file'',
          ''  // Edge types: CFG'',
          ''  // Nodes: 2, Edges: 1'',
          [],
          ''  // Node definitions'',
          ''  "1" [label="A" CODE="x'',
          ''  y"];'',
          ''  "2" [label="B"];'',
          [],
          ''  // Edge definitions'',
          ''  "1" -> "2" [label="CFG"];'',
          ''}'',
          []]\<close>
    by code_simp
  from 1 2 show ?thesis by (rule conjI)
qed


text \<open>
  The claim as stated asks for the texts sorted by node id; a node "2" declared before a
  node "1" is written before it.
\<close>

theorem extractor_node_order_counterexample:
  \<open>create_simple_subgraph
      (join_nl [''"2" [label="B"];'', ''"1" [label="A"];'', ''"2" -> "1" [label="CFG"];''])
      [''CFG'']
    = join_nl
       [''digraph subgraph_CFG {'',
        ''  // Direct extraction from original DOT file'',
        ''  // Edge types: CFG'',
        ''  // Nodes: 2, Edges: 1'',
        [],
        ''  // Node definitions'',
        ''  "2" [label="B"];'',
        ''  "1" [label="A"];'',
        [],
        ''  // Edge definitions'',
        ''  "2" -> "1" [label="CFG"];'',
        ''}'',
        []]
   \<and> map (\<lambda>node_def. node_match (strip node_def))
        (fst (subgraph_extract_nodes_simple
           (join_nl [''"2" [label="B"];'', ''"1" [label="A"];'', ''"2" -> "1" [label="CFG"];''])
           {''1'', ''2''}))
      = [Some ''2'', Some ''1'']
   \<and> \<not> sorted [''2'', ''1'']\<close>
  by code_simp

subsection \<open>Node integrity\<close>

lemma integrity_loop_eq:
  \<open>integrity_loop orig fs (ok, msgs, cs) =
     (ok \<and> filter (node_missing orig) fs = [] \<and> filter (node_corrupt orig) fs = [],
      msgs @ map (\<lambda>(node_id, d). ''Node '' @ node_id @ '' not found in original'')
               (filter (node_missing orig) fs),
      cs @ map fst (filter (node_corrupt orig) fs))\<close>
proof (induction fs arbitrary: ok msgs cs)
  case Nil
  show ?case by simp
next
  case (Cons x fs)
  obtain i d where x: \<open>x = (i, d)\<close> by (cases x)
  show ?case
  proof (cases \<open>map_of orig i\<close>)
    case None
    then show ?thesis
      unfolding x by (simp add: Cons node_missing_def node_corrupt_def)
  next
    case (Some od)
    then show ?thesis
      unfolding x by (simp add: Cons node_missing_def node_corrupt_def Let_def)
  qed
qed

lemma verify_node_integrity_eq:
  \<open>verify_node_integrity orig fs =
     (if filter (node_corrupt orig) fs \<noteq> []
      then \<lparr>passed = False,
            issues = map (\<lambda>(node_id, d). ''Node '' @ node_id @ '' not found in original'')
                       (filter (node_missing orig) fs)
              @ [''Corrupted node definitions: '' @ str_nat (length (filter (node_corrupt orig) fs))]\<rparr>
      else \<lparr>passed = (filter (node_missing orig) fs = []),
            issues = map (\<lambda>(node_id, d). ''Node '' @ node_id @ '' not found in original'')
                       (filter (node_missing orig) fs)\<rparr>)\<close>
  by (simp add: verify_node_integrity_def integrity_loop_eq)

lemma verify_node_integrity_passed:
  assumes \<open>verify_node_integrity orig fs = \<lparr>passed = True, issues = []\<rparr>\<close>
  shows \<open>filter (node_missing orig) fs = []\<close> and \<open>filter (node_corrupt orig) fs = []\<close>
  using assms unfolding verify_node_integrity_eq by (auto split: if_splits)

lemma mutate_raw_keys: \<open>map fst (mutate_raw n r fs) = map fst fs\<close>
  by (induction fs) (auto simp: mutate_raw_def)

lemma mutate_raw_attr_filter:
  \<open>map fst (filter (\<lambda>(node_id, d). Q node_id (attributes d)) (mutate_raw n r fs))
     = map fst (filter (\<lambda>(node_id, d). Q node_id (attributes d)) fs)\<close>
  by (induction fs) (auto simp: mutate_raw_def split: if_splits)

lemma mutate_raw_missing:
  \<open>filter (node_missing orig) fs = [] \<Longrightarrow> filter (node_missing orig) (mutate_raw n r fs) = []\<close>
  by (induction fs) (auto simp: mutate_raw_def node_missing_def split: if_splits)

lemma mutate_raw_corrupt_other:
  assumes \<open>filter (node_corrupt orig) fs = []\<close> \<open>n \<notin> set (map fst fs)\<close>
  shows \<open>filter (node_corrupt orig) (mutate_raw n r fs) = []\<close>
  using assms by (induction fs) (auto simp: mutate_raw_def node_corrupt_def split: if_splits)

lemma mutate_raw_corrupt:
  assumes \<open>filter (node_corrupt orig) fs = []\<close>
    and \<open>filter (node_missing orig) fs = []\<close>
    and \<open>distinct (map fst fs)\<close>
    and \<open>map_option raw_definition (map_of fs n) = Some r0\<close>
    and \<open>strip r \<noteq> strip r0\<close>
  shows \<open>map fst (filter (node_corrupt orig) (mutate_raw n r fs)) = [n]\<close>
  using assms
proof (induction fs)
  case Nil
  then show ?case by simp
next
  case (Cons x fs)
  obtain i d where x: \<open>x = (i, d)\<close> by (cases x)
  show ?case
  proof (cases \<open>i = n\<close>)
    case True
    from Cons.prems(3) x True have nin: \<open>n \<notin> set (map fst fs)\<close> by simp
    from Cons.prems(1) have c: \<open>filter (node_corrupt orig) fs = []\<close>
      by (auto split: if_splits)
    have rest: \<open>filter (node_corrupt orig) (mutate_raw n r fs) = []\<close>
      using c nin by (rule mutate_raw_corrupt_other)
    from Cons.prems(4) x True have r0: \<open>raw_definition d = r0\<close> by simp
    from Cons.prems(2) x True obtain od where od: \<open>map_of orig n = Some od\<close>
      by (auto simp: node_missing_def split: if_splits)
    from Cons.prems(1) x True od have \<open>strip (raw_definition od) = strip (raw_definition d)\<close>
      by (auto simp: node_corrupt_def split: if_splits)
    with r0 Cons.prems(5) have \<open>node_corrupt orig (n, d\<lparr>raw_definition := r\<rparr>)\<close>
      by (auto simp: node_corrupt_def od)
    then have \<open>filter (node_corrupt orig) (mutate_raw n r (x # fs))
        = (n, d\<lparr>raw_definition := r\<rparr>) # filter (node_corrupt orig) (mutate_raw n r fs)\<close>
      unfolding x using True by (simp add: mutate_raw_def)
    then show ?thesis using rest by simp
  next
    case False
    from Cons.prems(1) x have nc: \<open>\<not> node_corrupt orig (i, d)\<close> and c: \<open>filter (node_corrupt orig) fs = []\<close>
      by (auto split: if_splits)
    from Cons.prems(2) have m: \<open>filter (node_missing orig) fs = []\<close>
      by (auto split: if_splits)
    from Cons.prems(3) have dd: \<open>distinct (map fst fs)\<close> by simp
    from Cons.prems(4) x False have l: \<open>map_option raw_definition (map_of fs n) = Some r0\<close> by simp
    have \<open>map fst (filter (node_corrupt orig) (mutate_raw n r fs)) = [n]\<close>
      using Cons.IH [OF c m dd l Cons.prems(5)] .
    moreover have \<open>filter (node_corrupt orig) (mutate_raw n r (x # fs))
        = filter (node_corrupt orig) (mutate_raw n r fs)\<close>
      unfolding x using False nc by (simp add: mutate_raw_def)
    ultimately show ?thesis by simp
  qed
qed

lemma str_nat_1: \<open>str_nat 1 = ''1''\<close>
  by code_simp


text \<open>
  Claim C8, as the code has it. Take a filtered node table with distinct ids on which
  the node integrity check passes without issues, and replace the raw text of one of its
  nodes by a text whose stripped form differs from the stripped form of the old one,
  leaving the node's id and extracted attributes and every other record as they are.
  Then the node integrity check reports \<open>passed = False\<close> with exactly one issue,
  \<open>Corrupted node definitions: 1\<close>, which gives the number of corrupted nodes and not
  the node id; and the other three checks report exactly what they report for the
  unchanged table.
\<close>

theorem node_integrity_detects_mutation:
  assumes \<open>distinct (map fst filtered_nodes)\<close>
    and \<open>verify_node_integrity original_nodes filtered_nodes = \<lparr>passed = True, issues = []\<rparr>\<close>
    and \<open>map_option raw_definition (map_of filtered_nodes n) = Some r0\<close>
    and \<open>strip r \<noteq> strip r0\<close>
  shows \<open>verify_node_integrity original_nodes (mutate_raw n r filtered_nodes)
            = \<lparr>passed = False, issues = [''Corrupted node definitions: 1'']\<rparr>
         \<and> verify_udf_identification repr_set original_nodes (mutate_raw n r filtered_nodes)
            = verify_udf_identification repr_set original_nodes filtered_nodes
         \<and> verify_cfg_reachability original_edges original_nodes (mutate_raw n r filtered_nodes)
            = verify_cfg_reachability original_edges original_nodes filtered_nodes
         \<and> verify_edge_filtering original_nodes (mutate_raw n r filtered_nodes) filtered_edges
            = verify_edge_filtering original_nodes filtered_nodes filtered_edges\<close>
proof (intro conjI)
  note ok = verify_node_integrity_passed [OF assms(2)]
  have c: \<open>map fst (filter (node_corrupt original_nodes) (mutate_raw n r filtered_nodes)) = [n]\<close>
    using ok(2) ok(1) assms(1,3,4) by (rule mutate_raw_corrupt)
  then have l: \<open>length (filter (node_corrupt original_nodes) (mutate_raw n r filtered_nodes)) = 1\<close>
    by (metis length_map length_Cons list.size(3) One_nat_def)
  then have ne: \<open>filter (node_corrupt original_nodes) (mutate_raw n r filtered_nodes) \<noteq> []\<close>
    by auto
  have m: \<open>filter (node_missing original_nodes) (mutate_raw n r filtered_nodes) = []\<close>
    using ok(1) by (rule mutate_raw_missing)
  show \<open>verify_node_integrity original_nodes (mutate_raw n r filtered_nodes)
            = \<lparr>passed = False, issues = [''Corrupted node definitions: 1'']\<rparr>\<close>
    unfolding verify_node_integrity_eq using ne l m str_nat_1 by simp
  have a: \<open>map fst (filter (\<lambda>(node_id, node_data). attributes node_data ''label'' = Some ''METHOD'')
                (mutate_raw n r filtered_nodes))
          = map fst (filter (\<lambda>(node_id, node_data). attributes node_data ''label'' = Some ''METHOD'')
                filtered_nodes)\<close>
    using mutate_raw_attr_filter [of \<open>\<lambda>i a. a ''label'' = Some ''METHOD''\<close> n r filtered_nodes] .
  have b: \<open>map fst (filter (\<lambda>(node_id, node_data). attributes node_data ''label'' = Some ''METHOD''
                  \<and> verifier_is_user_defined_method (attributes node_data))
                (mutate_raw n r filtered_nodes))
          = map fst (filter (\<lambda>(node_id, node_data). attributes node_data ''label'' = Some ''METHOD''
                  \<and> verifier_is_user_defined_method (attributes node_data))
                filtered_nodes)\<close>
    using mutate_raw_attr_filter
      [of \<open>\<lambda>i a. a ''label'' = Some ''METHOD'' \<and> verifier_is_user_defined_method a\<close> n r filtered_nodes] .
  show \<open>verify_udf_identification repr_set original_nodes (mutate_raw n r filtered_nodes)
            = verify_udf_identification repr_set original_nodes filtered_nodes\<close>
    unfolding verify_udf_identification_def a b ..
  show \<open>verify_cfg_reachability original_edges original_nodes (mutate_raw n r filtered_nodes)
            = verify_cfg_reachability original_edges original_nodes filtered_nodes\<close>
    unfolding verify_cfg_reachability_def mutate_raw_keys ..
  show \<open>verify_edge_filtering original_nodes (mutate_raw n r filtered_nodes) filtered_edges
            = verify_edge_filtering original_nodes filtered_nodes filtered_edges\<close>
    unfolding verify_edge_filtering_def mutate_raw_keys ..
qed

theorem node_integrity_detects_mutation_witness:
  \<open>(let original =
          join_nl
            [''  "42" [label="METHOD" NAME="f" FILENAME="a.c"];'',
             ''  "7" [label="BLOCK" CODE="x"];'',
             ''  "42" -> "7" [label="CFG"];''];
        filtered =
          write_dot_file (fst (filter_udf_subgraph original)) (snd (filter_udf_subgraph original)) ''g'';
        original_nodes = verifier_parse_nodes original;
        filtered_nodes = verifier_parse_nodes filtered;
        mutated = mutate_raw ''42'' ''"42" [label="METHOD" NAME="g" FILENAME="a.c"];'' filtered_nodes
    in distinct (map fst filtered_nodes)
       \<and> verify_node_integrity original_nodes filtered_nodes = \<lparr>passed = True, issues = []\<rparr>
       \<and> map_option raw_definition (map_of filtered_nodes ''42'')
           = Some ''"42" [label="METHOD" NAME="f" FILENAME="a.c"];''
       \<and> strip ''"42" [label="METHOD" NAME="g" FILENAME="a.c"];''
           \<noteq> strip ''"42" [label="METHOD" NAME="f" FILENAME="a.c"];''
       \<and> verify_node_integrity original_nodes mutated
           = \<lparr>passed = False, issues = [''Corrupted node definitions: 1'']\<rparr>
       \<and> verify_udf_identification repr_set_sorted original_nodes mutated
           = verify_udf_identification repr_set_sorted original_nodes filtered_nodes
       \<and> verify_cfg_reachability (udf_parse_edges original) original_nodes mutated
           = verify_cfg_reachability (udf_parse_edges original) original_nodes filtered_nodes
       \<and> verify_edge_filtering original_nodes mutated (udf_parse_edges filtered)
           = verify_edge_filtering original_nodes filtered_nodes (udf_parse_edges filtered))\<close>
proof -
  let ?o = \<open>join_nl
            [''  "42" [label="METHOD" NAME="f" FILENAME="a.c"];'',
             ''  "7" [label="BLOCK" CODE="x"];'',
             ''  "42" -> "7" [label="CFG"];'']\<close>
  let ?f = \<open>write_dot_file (fst (filter_udf_subgraph ?o)) (snd (filter_udf_subgraph ?o)) ''g''\<close>
  let ?r = \<open>''"42" [label="METHOD" NAME="g" FILENAME="a.c"];''\<close>
  let ?raw = \<open>''"42" [label="METHOD" NAME="f" FILENAME="a.c"];''\<close>
  have 1: \<open>distinct (map fst (verifier_parse_nodes ?f))\<close>
    by code_simp
  have 2: \<open>verify_node_integrity (verifier_parse_nodes ?o) (verifier_parse_nodes ?f)
             = \<lparr>passed = True, issues = []\<rparr>\<close>
    by code_simp
  have 3: \<open>map_option raw_definition (map_of (verifier_parse_nodes ?f) ''42'') = Some ?raw\<close>
    by code_simp
  have 4: \<open>strip ?r \<noteq> strip ?raw\<close>
    by code_simp
  note th = node_integrity_detects_mutation [OF 1 2 3 4,
      of repr_set_sorted \<open>udf_parse_edges ?o\<close> \<open>udf_parse_edges ?f\<close>]
  show ?thesis
    unfolding Let_def using 1 2 3 4 th by (intro conjI) simp_all
qed


text \<open>
  The claim as stated fails on three one-character mutations of a correct output: the
  issue reported for a mutated attribute value does not name the node id; a mutated
  label also fails the UDF identification check; and a mutated leading blank is not
  detected, since raw texts are compared after stripping.
\<close>

theorem node_integrity_counterexample:
  \<open>(let original =
          join_nl
            [''  "42" [label="METHOD" NAME="f" FILENAME="a.c"];'',
             ''  "7" [label="BLOCK" CODE="x"];'',
             ''  "42" -> "7" [label="CFG"];''];
        correct =
          join_nl
            [''digraph udf_g {'',
             ''  // UDF-filtered subgraph'',
             ''  // Only user-defined functions and their bodies'',
             ''  // Nodes: 2, Edges: 1'',
             [],
             ''  // Node definitions'',
             ''    "42" [label="METHOD" NAME="f" FILENAME="a.c"];'',
             ''    "7" [label="BLOCK" CODE="x"];'',
             [],
             ''  // Edge definitions'',
             ''    "42" -> "7" [label="CFG"];'',
             ''}'',
             []];
        name_mutated =
          join_nl
            [''digraph udf_g {'',
             ''  // UDF-filtered subgraph'',
             ''  // Only user-defined functions and their bodies'',
             ''  // Nodes: 2, Edges: 1'',
             [],
             ''  // Node definitions'',
             ''    "42" [label="METHOD" NAME="g" FILENAME="a.c"];'',
             ''    "7" [label="BLOCK" CODE="x"];'',
             [],
             ''  // Edge definitions'',
             ''    "42" -> "7" [label="CFG"];'',
             ''}'',
             []];
        label_mutated =
          join_nl
            [''digraph udf_g {'',
             ''  // UDF-filtered subgraph'',
             ''  // Only user-defined functions and their bodies'',
             ''  // Nodes: 2, Edges: 1'',
             [],
             ''  // Node definitions'',
             ''    "42" [label="METHOE" NAME="f" FILENAME="a.c"];'',
             ''    "7" [label="BLOCK" CODE="x"];'',
             [],
             ''  // Edge definitions'',
             ''    "42" -> "7" [label="CFG"];'',
             ''}'',
             []];
        indent_mutated =
          join_nl
            [''digraph udf_g {'',
             ''  // UDF-filtered subgraph'',
             ''  // Only user-defined functions and their bodies'',
             ''  // Nodes: 2, Edges: 1'',
             [],
             ''  // Node definitions'',
             ''  '' @ [CHR 0x09] @ '' "42" [label="METHOD" NAME="f" FILENAME="a.c"];'',
             ''    "7" [label="BLOCK" CODE="x"];'',
             [],
             ''  // Edge definitions'',
             ''    "42" -> "7" [label="CFG"];'',
             ''}'',
             []];
        all_passed = \<lparr>passed = True, issues = []\<rparr>
    in write_dot_file (fst (filter_udf_subgraph original)) (snd (filter_udf_subgraph original)) ''g''
         = correct
       \<and> run_verification repr_set_sorted original correct
           = \<lparr>udf_identification = all_passed, cfg_reachability = all_passed,
              edge_filtering = all_passed, node_integrity = all_passed\<rparr>
       \<and> length (filter (\<lambda>(a, b). a \<noteq> b) (zip correct name_mutated)) = 1
       \<and> length correct = length name_mutated
       \<and> run_verification repr_set_sorted original name_mutated
           = \<lparr>udf_identification = all_passed, cfg_reachability = all_passed,
              edge_filtering = all_passed,
              node_integrity = \<lparr>passed = False, issues = [''Corrupted node definitions: 1'']\<rparr>\<rparr>
       \<and> \<not> sublist ''42'' ''Corrupted node definitions: 1''
       \<and> length (filter (\<lambda>(a, b). a \<noteq> b) (zip correct label_mutated)) = 1
       \<and> length correct = length label_mutated
       \<and> run_verification repr_set_sorted original label_mutated
           = \<lparr>udf_identification =
                \<lparr>passed = False, issues = [''Missing UDF methods: {'' @ [CHR 0x27] @ ''42'' @ [CHR 0x27] @ ''}'']\<rparr>,
              cfg_reachability = all_passed,
              edge_filtering = all_passed,
              node_integrity = \<lparr>passed = False, issues = [''Corrupted node definitions: 1'']\<rparr>\<rparr>
       \<and> length (filter (\<lambda>(a, b). a \<noteq> b) (zip correct indent_mutated)) = 1
       \<and> length correct = length indent_mutated
       \<and> run_verification repr_set_sorted original indent_mutated
           = \<lparr>udf_identification = all_passed, cfg_reachability = all_passed,
              edge_filtering = all_passed, node_integrity = all_passed\<rparr>)\<close>
  by code_simp

subsection \<open>The end of a node block\<close>

lemma not_isspace_semicolon: \<open>\<not> isspace CHR '';''\<close>
  by (simp add: isspace_def)

lemma lookahead_iff:
  \<open>(\<exists>sp rest. cs = sp @ '';'' @ rest \<and> list_all isspace sp)
     \<longleftrightarrow> (\<exists>r. dropWhile isspace cs = CHR '';'' # r)\<close>
proof
  assume \<open>\<exists>sp rest. cs = sp @ '';'' @ rest \<and> list_all isspace sp\<close>
  then obtain sp rest where \<open>cs = sp @ CHR '';'' # rest\<close> \<open>list_all isspace sp\<close> by auto
  then have \<open>dropWhile isspace cs = CHR '';'' # rest\<close>
    using dropWhile_spaces_skip [of sp \<open>CHR '';''\<close> rest] not_isspace_semicolon by simp
  then show \<open>\<exists>r. dropWhile isspace cs = CHR '';'' # r\<close> by blast
next
  assume \<open>\<exists>r. dropWhile isspace cs = CHR '';'' # r\<close>
  then obtain r where r: \<open>dropWhile isspace cs = CHR '';'' # r\<close> by blast
  obtain ws where \<open>cs = ws @ dropWhile isspace cs\<close> \<open>list_all isspace ws\<close>
    using dropWhile_spaces_split [of cs] by blast
  with r have \<open>cs = ws @ '';'' @ r \<and> list_all isspace ws\<close> by simp
  then show \<open>\<exists>sp rest. cs = sp @ '';'' @ rest \<and> list_all isspace sp\<close> by blast
qed

lemma block_end_Cons:
  \<open>(\<exists>pre sp rest. c # cs = pre @ '']'' @ sp @ '';'' @ rest \<and> list_all isspace sp
        \<and> \<not> fst (foldl quote_step st pre))
   \<longleftrightarrow> (c = CHR '']'' \<and> \<not> fst st \<and> (\<exists>sp rest. cs = sp @ '';'' @ rest \<and> list_all isspace sp))
     \<or> (\<exists>pre sp rest. cs = pre @ '']'' @ sp @ '';'' @ rest \<and> list_all isspace sp
        \<and> \<not> fst (foldl quote_step (quote_step st c) pre))\<close>
  (is \<open>?L \<longleftrightarrow> ?A \<or> ?B\<close>)
proof
  assume ?L
  then obtain pre sp rest where h: \<open>c # cs = pre @ '']'' @ sp @ '';'' @ rest\<close>
    \<open>list_all isspace sp\<close> \<open>\<not> fst (foldl quote_step st pre)\<close> by blast
  show \<open>?A \<or> ?B\<close>
  proof (cases pre)
    case Nil
    with h have ?A by auto
    then show ?thesis ..
  next
    case (Cons p pre')
    with h have \<open>cs = pre' @ '']'' @ sp @ '';'' @ rest \<and> list_all isspace sp
        \<and> \<not> fst (foldl quote_step (quote_step st c) pre')\<close> by auto
    then have ?B by blast
    then show ?thesis ..
  qed
next
  assume \<open>?A \<or> ?B\<close>
  then show ?L
  proof
    assume ?A
    then obtain sp rest where \<open>c # cs = [] @ '']'' @ sp @ '';'' @ rest\<close> \<open>list_all isspace sp\<close>
      \<open>\<not> fst (foldl quote_step st [])\<close> by auto
    then show ?L by blast
  next
    assume ?B
    then obtain pre sp rest where \<open>cs = pre @ '']'' @ sp @ '';'' @ rest\<close> \<open>list_all isspace sp\<close>
      \<open>\<not> fst (foldl quote_step (quote_step st c) pre)\<close> by blast
    then have \<open>c # cs = (c # pre) @ '']'' @ sp @ '';'' @ rest \<and> list_all isspace sp
      \<and> \<not> fst (foldl quote_step st (c # pre))\<close> by simp
    then show ?L by blast
  qed
qed

lemma scan_loop_step:
  \<open>scan_loop (c # cs) in_string escape buf =
     (if \<not> in_string \<and> c = CHR '']'' \<and> (\<exists>r. dropWhile isspace cs = CHR '';'' # r)
      then (rstrip (butlast (((buf @ [c]) @ takeWhile isspace cs) @ '';'')), True, in_string)
      else scan_loop cs (fst (quote_step (in_string, escape) c)) (snd (quote_step (in_string, escape) c))
             (if \<not> in_string \<and> c = CHR '']'' then (buf @ [c]) @ takeWhile isspace cs else buf @ [c]))\<close>
proof -
  have nq: \<open>CHR '']'' \<noteq> dquote\<close> by (simp add: dquote_def)
  show ?thesis
  proof (cases in_string)
    case True
    then show ?thesis by (simp add: Let_def)
  next
    case False
    show ?thesis
    proof (cases \<open>c = CHR '']''\<close>)
      case other: False
      then show ?thesis using False by (simp add: Let_def)
    next
      case bracket: True
      show ?thesis
      proof (cases \<open>dropWhile isspace cs\<close>)
        case Nil
        then show ?thesis
          by (simp add: Let_def False bracket nq del: dropWhile_eq_Nil_conv)
      next
        case (Cons k r)
        then show ?thesis
          by (simp add: Let_def False bracket nq del: dropWhile_eq_Nil_conv)
      qed
    qed
  qed
qed

lemma scan_loop_done_iff:
  \<open>fst (snd (scan_loop cs in_string escape buf)) \<longleftrightarrow>
     (\<exists>pre sp rest. cs = pre @ '']'' @ sp @ '';'' @ rest \<and> list_all isspace sp
        \<and> \<not> fst (foldl quote_step (in_string, escape) pre))\<close>
proof (induction cs arbitrary: in_string escape buf)
  case Nil
  show ?case by simp
next
  case (Cons c cs)
  note be = block_end_Cons [of c cs \<open>(in_string, escape)\<close>]
  let ?st = \<open>quote_step (in_string, escape) c\<close>
  have st: \<open>(fst ?st, snd ?st) = ?st\<close> by simp
  show ?case
  proof (cases \<open>\<not> in_string \<and> c = CHR '']'' \<and> (\<exists>r. dropWhile isspace cs = CHR '';'' # r)\<close>)
    case True
    then have \<open>fst (snd (scan_loop (c # cs) in_string escape buf))\<close>
      by (subst scan_loop_step) simp
    moreover have \<open>\<exists>sp rest. cs = sp @ '';'' @ rest \<and> list_all isspace sp\<close>
      using True lookahead_iff by blast
    ultimately show ?thesis
      unfolding be using True by simp
  next
    case False
    then have nA: \<open>\<not> (c = CHR '']'' \<and> \<not> fst (in_string, escape)
        \<and> (\<exists>sp rest. cs = sp @ '';'' @ rest \<and> list_all isspace sp))\<close>
      using lookahead_iff [of cs] by auto
    have \<open>scan_loop (c # cs) in_string escape buf
        = scan_loop cs (fst ?st) (snd ?st)
            (if \<not> in_string \<and> c = CHR '']'' then (buf @ [c]) @ takeWhile isspace cs else buf @ [c])\<close>
      by (subst scan_loop_step, subst if_not_P [OF False], rule refl)
    then have \<open>fst (snd (scan_loop (c # cs) in_string escape buf))
        \<longleftrightarrow> (\<exists>pre sp rest. cs = pre @ '']'' @ sp @ '';'' @ rest \<and> list_all isspace sp
              \<and> \<not> fst (foldl quote_step (fst ?st, snd ?st) pre))\<close>
      using Cons.IH by simp
    then show ?thesis
      unfolding be st using nA by blast
  qed
qed

lemma scan_loop_state:
  \<open>\<not> fst (snd (scan_loop cs in_string escape buf)) \<Longrightarrow>
     snd (snd (scan_loop cs in_string escape buf)) = fst (foldl quote_step (in_string, escape) cs)\<close>
proof (induction cs arbitrary: in_string escape buf)
  case Nil
  show ?case by simp
next
  case (Cons c cs)
  let ?st = \<open>quote_step (in_string, escape) c\<close>
  have st: \<open>(fst ?st, snd ?st) = ?st\<close> by simp
  have F: \<open>\<not> (\<not> in_string \<and> c = CHR '']'' \<and> (\<exists>r. dropWhile isspace cs = CHR '';'' # r))\<close>
  proof
    assume \<open>\<not> in_string \<and> c = CHR '']'' \<and> (\<exists>r. dropWhile isspace cs = CHR '';'' # r)\<close>
    then have \<open>fst (snd (scan_loop (c # cs) in_string escape buf))\<close>
      by (subst scan_loop_step) simp
    with Cons.prems show False by simp
  qed
  have eq: \<open>scan_loop (c # cs) in_string escape buf
        = scan_loop cs (fst ?st) (snd ?st)
            (if \<not> in_string \<and> c = CHR '']'' then (buf @ [c]) @ takeWhile isspace cs else buf @ [c])\<close>
    by (subst scan_loop_step, subst if_not_P [OF F], rule refl)
  with Cons.prems have \<open>\<not> fst (snd (scan_loop cs (fst ?st) (snd ?st)
            (if \<not> in_string \<and> c = CHR '']'' then (buf @ [c]) @ takeWhile isspace cs else buf @ [c])))\<close>
    by simp
  then have \<open>snd (snd (scan_loop cs (fst ?st) (snd ?st)
            (if \<not> in_string \<and> c = CHR '']'' then (buf @ [c]) @ takeWhile isspace cs else buf @ [c])))
      = fst (foldl quote_step (fst ?st, snd ?st) cs)\<close>
    by (rule Cons.IH)
  then show ?case
    unfolding eq st by simp
qed

lemma scan_loop_done_outside:
  \<open>fst (snd (scan_loop cs in_string escape buf)) \<Longrightarrow> \<not> snd (snd (scan_loop cs in_string escape buf))\<close>
proof (induction cs arbitrary: in_string escape buf)
  case Nil
  then show ?case by simp
next
  case (Cons c cs)
  show ?case
  proof (cases \<open>\<not> in_string \<and> c = CHR '']'' \<and> (\<exists>r. dropWhile isspace cs = CHR '';'' # r)\<close>)
    case True
    then show ?thesis by (subst scan_loop_step) simp
  next
    case False
    have eq: \<open>scan_loop (c # cs) in_string escape buf
        = scan_loop cs (fst (quote_step (in_string, escape) c)) (snd (quote_step (in_string, escape) c))
            (if \<not> in_string \<and> c = CHR '']'' then (buf @ [c]) @ takeWhile isspace cs else buf @ [c])\<close>
      by (subst scan_loop_step, subst if_not_P [OF False], rule refl)
    show ?thesis
      using Cons.prems unfolding eq by (rule Cons.IH)
  qed
qed

lemma backslash_not_dquote: \<open>backslash \<noteq> dquote\<close>
  by (simp add: backslash_def dquote_def)

lemma quote_state_snoc: \<open>quote_state st (p @ [c]) = quote_step (quote_state st p) c\<close>
  by (simp add: quote_state_def)

lemma trailing_backslashes_snoc:
  \<open>length (takeWhile (\<lambda>x. x = backslash) (rev (p @ [c])))
     = (if c = backslash then Suc (length (takeWhile (\<lambda>x. x = backslash) (rev p))) else 0)\<close>
  by simp

lemma quote_state_escape:
  \<open>quote_state (i0, False) p = (ins, esc) \<Longrightarrow>
     esc = (ins \<and> odd (length (takeWhile (\<lambda>x. x = backslash) (rev p))))\<close>
proof (induction p arbitrary: ins esc rule: rev_induct)
  case Nil
  then show ?case by (simp add: quote_state_def)
next
  case (snoc c p)
  obtain i e where st: \<open>quote_state (i0, False) p = (i, e)\<close>
    by (cases \<open>quote_state (i0, False) p\<close>)
  from snoc.IH [OF st] have e: \<open>e = (i \<and> odd (length (takeWhile (\<lambda>x. x = backslash) (rev p))))\<close> .
  from snoc.prems have step: \<open>quote_step (i, e) c = (ins, esc)\<close>
    unfolding quote_state_snoc st .
  show ?case
    unfolding trailing_backslashes_snoc
    using step e backslash_not_dquote by (auto split: if_splits)
qed

lemma quote_closes_iff:
  assumes \<open>fst (quote_state (i0, False) p)\<close>
  shows \<open>fst (quote_state (i0, False) (p @ [dquote]))
           \<longleftrightarrow> odd (length (takeWhile (\<lambda>x. x = backslash) (rev p)))\<close>
proof -
  obtain e where st: \<open>quote_state (i0, False) p = (True, e)\<close>
    using assms by (cases \<open>quote_state (i0, False) p\<close>) auto
  from quote_state_escape [OF st] have \<open>e = odd (length (takeWhile (\<lambda>x. x = backslash) (rev p)))\<close>
    by simp
  then show ?thesis
    unfolding quote_state_snoc st using backslash_not_dquote by auto
qed

lemma scan_until_done_iff:
  \<open>fst (snd (scan_until_node_end accum ln in_string)) \<longleftrightarrow> block_end_at in_string ln\<close>
  unfolding block_end_at_def quote_state_def scan_until_node_end_def
  using scan_loop_done_iff [of ln in_string False \<open>[]\<close>] by (simp add: split_beta)

lemma scan_until_state:
  assumes \<open>\<not> block_end_at in_string ln\<close>
  shows \<open>snd (snd (scan_until_node_end accum ln in_string)) = fst (quote_state (in_string, False) ln)\<close>
proof -
  have \<open>\<not> fst (snd (scan_loop ln in_string False []))\<close>
    using assms scan_until_done_iff [of accum ln in_string]
    by (simp add: scan_until_node_end_def split_beta)
  from scan_loop_state [OF this] show ?thesis
    by (simp add: scan_until_node_end_def split_beta quote_state_def)
qed

lemma scan_until_done_outside:
  assumes \<open>block_end_at in_string ln\<close>
  shows \<open>snd (snd (scan_until_node_end accum ln in_string)) = False\<close>
proof -
  have \<open>fst (snd (scan_loop ln in_string False []))\<close>
    using assms scan_until_done_iff [of accum ln in_string]
    by (simp add: scan_until_node_end_def split_beta)
  from scan_loop_done_outside [OF this] show ?thesis
    by (simp add: scan_until_node_end_def split_beta)
qed

lemma scan_file_in_node:
  \<open>scan_file (ln # raws) (True, in_string, accum) out =
     (if block_end_at in_string ln
      then scan_file raws (False, False, [])
             (out @ [concat (fst (scan_until_node_end accum ln in_string))])
      else scan_file raws
             (True, fst (quote_state (in_string, False) ln),
              fst (scan_until_node_end accum ln in_string)) out)\<close>
proof (cases \<open>block_end_at in_string ln\<close>)
  case True
  then show ?thesis
    using scan_until_done_iff [of accum ln in_string] scan_until_done_outside [OF True, of accum]
    by (simp add: split_beta)
next
  case False
  then show ?thesis
    using scan_until_done_iff [of accum ln in_string] scan_until_state [OF False, of accum]
    by (simp add: split_beta)
qed

lemma block_end_unquoted:
  \<open>\<not> fst (quote_state (in_string, False) pre) \<Longrightarrow> block_end_at in_string (pre @ ''];'' @ rest)\<close>
  unfolding block_end_at_def
  by (rule exI [of _ pre], rule exI [of _ \<open>[]\<close>], rule exI [of _ rest]) simp


lemma node_start_SomeD:
  assumes \<open>node_start ln = Some (node_id, remainder)\<close>
  shows \<open>\<not> sublist ''->'' (strip ln)
     \<and> (\<exists>ws. strip ln = [dquote] @ node_id @ [dquote] @ ws @ ''['' @ remainder
            \<and> dquote \<notin> set node_id \<and> list_all isspace ws)\<close>
proof -
  let ?s = \<open>strip ln\<close>
  from assms have p: \<open>prefix [dquote] ?s\<close> and ns: \<open>\<not> sublist ''->'' ?s\<close>
    by (auto simp: node_start_def Let_def split: if_splits)
  then have s: \<open>?s = dquote # tl ?s\<close>
    by (cases ?s) auto
  let ?t = \<open>tl ?s\<close>
  from assms p ns obtain q after where d: \<open>dropWhile (\<lambda>x. x \<noteq> dquote) ?t = q # after\<close>
    by (auto simp: node_start_def Let_def split: if_splits list.splits)
  with assms p ns obtain b where d2: \<open>dropWhile isspace after = b # remainder\<close>
    and b: \<open>b = CHR ''[''\<close> and i: \<open>node_id = takeWhile (\<lambda>x. x \<noteq> dquote) ?t\<close>
    by (auto simp: node_start_def Let_def split: if_splits list.splits)
  have \<open>hd (dropWhile (\<lambda>x. x \<noteq> dquote) ?t) = dquote\<close>
    using d hd_dropWhile [of \<open>\<lambda>x. x \<noteq> dquote\<close> ?t] by auto
  with d have q: \<open>q = dquote\<close> by simp
  have t: \<open>?t = node_id @ dquote # after\<close>
    using takeWhile_dropWhile_id [of \<open>\<lambda>x. x \<noteq> dquote\<close> ?t] d q i by simp
  obtain ws where w: \<open>after = ws @ dropWhile isspace after\<close> \<open>list_all isspace ws\<close>
    using dropWhile_spaces_split [of after] by blast
  have \<open>after = ws @ ''['' @ remainder\<close>
    using w(1) d2 b by simp
  with t have \<open>?t = node_id @ [dquote] @ ws @ ''['' @ remainder\<close> by simp
  with s have \<open>?s = [dquote] @ node_id @ [dquote] @ ws @ ''['' @ remainder\<close>
    by (metis append_Cons append_Nil)
  moreover have \<open>dquote \<notin> set node_id\<close>
    unfolding i by (auto dest: set_takeWhileD)
  ultimately show ?thesis using ns w(2) by blast
qed

lemma node_start_SomeI:
  assumes \<open>\<not> sublist ''->'' (strip ln)\<close>
    \<open>strip ln = [dquote] @ node_id @ [dquote] @ ws @ ''['' @ remainder\<close>
    \<open>dquote \<notin> set node_id\<close> \<open>list_all isspace ws\<close>
  shows \<open>node_start ln = Some (node_id, remainder)\<close>
proof -
  let ?after = \<open>ws @ CHR ''['' # remainder\<close>
  have s: \<open>strip ln = dquote # node_id @ dquote # ?after\<close>
    using assms(2) by simp
  have t: \<open>takeWhile (\<lambda>x. x \<noteq> dquote) (node_id @ dquote # ?after) = node_id\<close>
    using assms(3) by (simp add: takeWhile_neq_append)
  have d: \<open>dropWhile (\<lambda>x. x \<noteq> dquote) (node_id @ dquote # ?after) = dquote # ?after\<close>
    using assms(3) by (simp add: dropWhile_neq_append)
  have d2: \<open>dropWhile isspace ?after = CHR ''['' # remainder\<close>
    using assms(4) not_isspace_bracket by (rule dropWhile_spaces_skip)
  have ns: \<open>\<not> sublist ''->'' (dquote # node_id @ dquote # ?after)\<close>
    using assms(1) unfolding s .
  show ?thesis
    unfolding node_start_def Let_def s using ns t d d2 by simp
qed

lemma node_start_iff:
  \<open>node_start ln = Some (node_id, remainder) \<longleftrightarrow>
     \<not> sublist ''->'' (strip ln)
     \<and> (\<exists>ws. strip ln = [dquote] @ node_id @ [dquote] @ ws @ ''['' @ remainder
            \<and> dquote \<notin> set node_id \<and> list_all isspace ws)\<close>
  using node_start_SomeD node_start_SomeI by blast

lemma node_start_arrow: \<open>sublist ''->'' (strip ln) \<Longrightarrow> node_start ln = None\<close>
  by (simp add: node_start_def Let_def)

lemma scan_file_start:
  \<open>scan_file (ln # raws) (False, in_string, accum) out =
     (case node_start ln of
        None \<Rightarrow> scan_file raws (False, in_string, accum) out
      | Some (node_id, remainder) \<Rightarrow>
          if block_end_at False remainder
          then scan_file raws (False, False, [])
                 (out @ [concat (fst (scan_until_node_end [] remainder False))])
          else scan_file raws
                 (True, fst (quote_state (False, False) remainder),
                  fst (scan_until_node_end [] remainder False)) out)\<close>
proof (cases \<open>node_start ln\<close>)
  case None
  then show ?thesis by simp
next
  case (Some p)
  obtain node_id remainder where p: \<open>p = (node_id, remainder)\<close> by (cases p)
  show ?thesis
  proof (cases \<open>block_end_at False remainder\<close>)
    case True
    then show ?thesis
      using Some p scan_until_done_iff [of \<open>[]\<close> remainder False]
        scan_until_done_outside [OF True, of \<open>[]\<close>]
      by (simp add: split_beta)
  next
    case False
    then show ?thesis
      using Some p scan_until_done_iff [of \<open>[]\<close> remainder False]
        scan_until_state [OF False, of \<open>[]\<close>]
      by (simp add: split_beta)
  qed
qed






end
